theory Spec2Isabelle
  imports Main "HOL-Library.List_Lexorder" "HOL-Library.Code_Target_Nat"
begin

section \<open>JavaScript values shared by the three source files\<close>

text \<open>
  A JavaScript string is its sequence of UTF-16 code units. ASCII literals are written
  through \<open>js\<close>; the symbol \<open>EPSILON\<close> of the sources is the single unit U+03B5.
\<close>

type_synonym jsstring = "nat list"

definition js :: "string \<Rightarrow> jsstring" where
  "js s = map of_char s"

text \<open>\<open>String(n)\<close> for a non-negative integer: its decimal digits.\<close>

fun show_nat :: "nat \<Rightarrow> jsstring" where
  "show_nat n = (if n < 10 then [48 + n] else show_nat (n div 10) @ [48 + n mod 10])"

declare show_nat.simps [simp del]

text \<open>\<open>Array.prototype.join(',')\<close> on an array of strings.\<close>

fun join_comma :: "jsstring list \<Rightarrow> jsstring" where
  "join_comma [] = []"
| "join_comma [x] = x"
| "join_comma (x # y # zs) = x @ 44 # join_comma (y # zs)"

definition join_ids :: "nat list \<Rightarrow> jsstring" where
  "join_ids xs = join_comma (map show_nat xs)"

text \<open>\<open>Set.prototype.add\<close> on the insertion-ordered contents of a Set.\<close>

definition set_add :: "'a list \<Rightarrow> 'a \<Rightarrow> 'a list" where
  "set_add xs x = (if x \<in> set xs then xs else xs @ [x])"

text \<open>\<open>new Set(array)\<close> and \<open>[...set]\<close>: the first occurrence of every element, in order.\<close>

definition new_Set :: "'a list \<Rightarrow> 'a list" where
  "new_Set xs = foldl set_add [] xs"

text \<open>\<open>Map.prototype.set\<close>, also used for string-keyed objects whose key order is never read.\<close>

fun map_set :: "('k \<times> 'v) list \<Rightarrow> 'k \<Rightarrow> 'v \<Rightarrow> ('k \<times> 'v) list" where
  "map_set [] k v = [(k, v)]"
| "map_set ((k', v') # kvs) k v = (if k' = k then (k, v) # kvs else (k', v') # map_set kvs k v)"

text \<open>
  A JavaScript object whose keys are the decimal strings of non-negative integers. A key
  below \<open>2^32 - 1\<close> is an array index: the array indices are enumerated first, in ascending
  order, whatever the order of insertion; every other key follows in the order of its first
  insertion. Such an object is an association list in its order of enumeration;
  \<open>obj_put\<close> is the assignment \<open>o[k] = v\<close>, and \<open>put_index\<close> is that assignment for
  an array index.
\<close>

fun put_index :: "(nat \<times> 'v) list \<Rightarrow> nat \<Rightarrow> 'v \<Rightarrow> (nat \<times> 'v) list" where
  "put_index [] k v = [(k, v)]"
| "put_index ((k', v') # kvs) k v =
     (if k < k' then (k, v) # (k', v') # kvs
      else if k = k' then (k, v) # kvs
      else (k', v') # put_index kvs k v)"

definition obj_put :: "(nat \<times> 'v) list \<Rightarrow> nat \<Rightarrow> 'v \<Rightarrow> (nat \<times> 'v) list" where
  "obj_put kvs k v = (if k < 4294967295 then put_index kvs k v else map_set kvs k v)"

datatype js_error = TypeError | EmptyClass | NoNumber

section \<open>dfa-minimization.js\<close>

text \<open>
  A DFA table maps a state id to a row, and a row maps a symbol to a target id. A row
  value \<open>None\<close> is a property holding \<open>undefined\<close> (the rebuild step can store one).
  The keys of a table are the decimal strings of non-negative integers, and the association
  list gives the properties in the order of their creation. \<open>Object.keys(table)\<close> lists
  the array indices (the keys below \<open>2^32 - 1\<close>) in ascending order and then the other
  keys in the order of their creation.
\<close>

type_synonym row = "(jsstring \<times> nat option) list"
type_synonym table = "(nat \<times> row) list"

definition object_keys :: "table \<Rightarrow> nat list" where
  "object_keys t =
     (let ks = new_Set (map fst t)
      in sort (filter (\<lambda>k. k < 4294967295) ks) @ filter (\<lambda>k. \<not> k < 4294967295) ks)"

text \<open>
  \<open>Number(key)\<close> for a key that is the decimal string of \<open>n\<close>: the double nearest to
  \<open>n\<close>, ties to the even significand (ECMAScript leaves an engine some freedom beyond 20
  significant digits; this is the correctly rounded value). Up to \<open>2^53\<close> that is \<open>n\<close>
  itself. The value \<open>+Infinity\<close>, which no key below \<open>2^1024 - 2^970\<close> gives, is
  written \<open>2^1024\<close>.
\<close>

fun bit_length :: "nat \<Rightarrow> nat" where
  "bit_length n = (if n = 0 then 0 else Suc (bit_length (n div 2)))"

declare bit_length.simps [simp del]

definition js_Number :: "nat \<Rightarrow> nat" where
  "js_Number n =
     (if n < 9007199254740992 then n
      else
        (let e = bit_length n - 53;
             q = n div 2 ^ e;
             r = n mod 2 ^ e;
             half = 2 ^ (e - 1);
             q' = (if half < r \<or> (r = half \<and> odd q) then q + 1 else q)
         in if 2 ^ 1024 \<le> q' * 2 ^ e then 2 ^ 1024 else q' * 2 ^ e))"

text \<open>
  \<open>table[state]\<close> for a number \<open>state\<close>: the property named \<open>String(state)\<close>. From
  \<open>10^21\<close> up \<open>String\<close> gives the exponent notation, which is the key of no row.
\<close>

definition table_row :: "table \<Rightarrow> nat \<Rightarrow> row option" where
  "table_row t state = (if state < 1000000000000000000000 then map_of t state else None)"

text \<open>The module constants \<open>table\<close>, \<open>accepting\<close> and \<open>alphabet\<close>.\<close>

definition table0 :: table where
  "table0 = [(1, [(js ''a'', Some 2), (js ''b'', Some 3)]), (2, []), (3, [])]"

definition accepting :: "nat list" where
  "accepting = [2, 3]"

definition alphabet :: "jsstring list" where
  "alphabet = [js ''a'', js ''b'']"

text \<open>
  Equivalence classes are Set objects, compared by identity and mutated through aliases
  (\<open>handledStates[state] = handledStates[handledState]\<close>), so they live in a store.
  The constant Set \<open>accepting\<close> is never mutated and has its own reference. The
  module variable \<open>currentTransitionMap\<close> is part of the process state: it survives
  from one call of \<open>minimize\<close> to the next.
\<close>

datatype cref = Accepting | Obj nat

record pstate =
  sets :: "nat \<Rightarrow> nat list"
  fresh :: nat
  currentTransitionMap :: "nat \<Rightarrow> cref option"

definition init_pstate :: pstate where
  "init_pstate = \<lparr>sets = (\<lambda>_. []), fresh = 0, currentTransitionMap = (\<lambda>_. None)\<rparr>"

definition elems :: "pstate \<Rightarrow> cref \<Rightarrow> nat list" where
  "elems st c = (case c of Accepting \<Rightarrow> accepting | Obj r \<Rightarrow> sets st r)"

text \<open>
  \<open>currentTransitionMap[s][symbol]\<close> reads a property of a Set object by the name of an
  alphabet symbol. A Set has no property called \<open>a\<close> or \<open>b\<close>, the only names the module's
  alphabet holds; of the names a Set does answer to, the model keeps \<open>size\<close>.
\<close>

datatype jsval = Undefined | Num nat

definition set_property :: "nat list \<Rightarrow> jsstring \<Rightarrow> jsval" where
  "set_property es name = (if name = js ''size'' then Num (length es) else Undefined)"

definition goToSameSet :: "pstate \<Rightarrow> nat \<Rightarrow> nat \<Rightarrow> jsstring \<Rightarrow> bool" where
  "goToSameSet st s1 s2 symbol =
     (case currentTransitionMap st s1 of
        None \<Rightarrow> False
      | Some c1 \<Rightarrow>
          (case currentTransitionMap st s2 of
             None \<Rightarrow> False
           | Some c2 \<Rightarrow> set_property (elems st c1) symbol = set_property (elems st c2) symbol))"

definition areEquivalent :: "pstate \<Rightarrow> nat \<Rightarrow> nat \<Rightarrow> bool" where
  "areEquivalent st s1 s2 = list_all (goToSameSet st s1 s2) alphabet"

text \<open>
  The body of \<open>restSets\<close>: the first key of \<open>handledStates\<close>, in the order of
  \<open>Object.keys\<close>, equivalent to \<open>state\<close> decides the Set it joins; otherwise a new Set is
  allocated.
\<close>

fun find_handled :: "pstate \<Rightarrow> nat \<Rightarrow> (nat \<times> nat) list \<Rightarrow> nat option" where
  "find_handled st state [] = None"
| "find_handled st state ((handledState, r) # hs) =
     (if areEquivalent st state handledState then Some r else find_handled st state hs)"

definition alloc_set :: "nat list \<Rightarrow> pstate \<Rightarrow> nat \<times> pstate" where
  "alloc_set xs st = (fresh st, st\<lparr>sets := (sets st)(fresh st := new_Set xs), fresh := Suc (fresh st)\<rparr>)"

definition rest_step :: "(nat \<times> nat) list \<times> pstate \<Rightarrow> nat \<Rightarrow> (nat \<times> nat) list \<times> pstate" where
  "rest_step hs state =
     (case hs of (handledStates, st) \<Rightarrow>
        (case find_handled st state handledStates of
           Some r \<Rightarrow>
             (obj_put handledStates state r,
              st\<lparr>sets := (sets st)(r := set_add (sets st r) state)\<rparr>)
         | None \<Rightarrow>
             (case alloc_set [state] st of (r, st') \<Rightarrow> (obj_put handledStates state r, st'))))"

text \<open>
  One class of \<open>current\<close>: \<open>const [first, ...rest] = set\<close>. A class is never empty (round
  0 filters the empty ones out and every later class is created around its first member);
  the model stops with \<open>EmptyClass\<close> rather than follow the key \<open>undefined\<close>.
\<close>

definition handle_class :: "pstate \<Rightarrow> cref \<Rightarrow> js_error + ((nat \<times> nat) list \<times> pstate)" where
  "handle_class st c =
     (case elems st c of
        [] \<Rightarrow> Inl EmptyClass
      | first # rest \<Rightarrow>
          (case alloc_set [first] st of (r, st') \<Rightarrow>
             Inr (foldl rest_step ([(first, r)], st') rest)))"

text \<open>\<open>Object.assign(newTransitionMap, handledStates)\<close>.\<close>

definition object_assign :: "(nat \<times> 'v) list \<Rightarrow> (nat \<times> 'v) list \<Rightarrow> (nat \<times> 'v) list" where
  "object_assign target src = foldl (\<lambda>t (k, v). obj_put t k v) target src"

fun handle_classes ::
  "cref list \<Rightarrow> (nat \<times> nat) list \<Rightarrow> pstate \<Rightarrow> js_error + ((nat \<times> nat) list \<times> pstate)" where
  "handle_classes [] newTransitionMap st = Inr (newTransitionMap, st)"
| "handle_classes (c # cs) newTransitionMap st =
     (case handle_class st c of
        Inl e \<Rightarrow> Inl e
      | Inr (handledStates, st') \<Rightarrow>
          handle_classes cs (object_assign newTransitionMap handledStates) st')"

text \<open>
  \<open>[...s].sort().join(',')\<close>: the default sort orders the ids by their strings. Below
  \<open>10^21\<close> these are the decimal digits; from there on \<open>String\<close> gives the exponent
  notation, for which the digits stand here: \<open>sameRow\<close> only tests two such joins for
  equality, and both notations name different numbers differently and hold no comma.
\<close>

definition sorted_join :: "nat list \<Rightarrow> jsstring" where
  "sorted_join xs = join_ids (sort_key show_nat xs)"

definition sameRow :: "pstate \<Rightarrow> cref list \<Rightarrow> cref list option \<Rightarrow> bool" where
  "sameRow st r1 r2o =
     (case r2o of
        None \<Rightarrow> False
      | Some r2 \<Rightarrow>
          length r1 = length r2 \<and>
          list_all (\<lambda>(s1, s2). length (elems st s1) = length (elems st s2) \<and>
                               sorted_join (elems st s1) = sorted_join (elems st s2))
                   (zip r1 r2))"

text \<open>
  Step 2. \<open>remaped\<close> numbers the classes of \<open>current\<close> from 1. Reading
  \<open>table[originalState][symbol]\<close> throws when the table has no row for the class's first
  member; a transition that is \<open>undefined\<close> or \<open>0\<close> is falsy and skipped.
\<close>

definition remaped_of :: "cref list \<Rightarrow> (cref \<times> nat) list" where
  "remaped_of current = zip current [1 ..< Suc (length current)]"

definition remaped_get :: "(cref \<times> nat) list \<Rightarrow> cref option \<Rightarrow> nat option" where
  "remaped_get remaped c = (case c of None \<Rightarrow> None | Some r \<Rightarrow> map_of remaped r)"

fun build_row ::
  "table \<Rightarrow> pstate \<Rightarrow> (cref \<times> nat) list \<Rightarrow> cref \<Rightarrow> jsstring list \<Rightarrow> row \<Rightarrow> js_error + row" where
  "build_row t st remaped c [] acc = Inr acc"
| "build_row t st remaped c (symbol # symbols) acc =
     (case elems st c of
        [] \<Rightarrow> Inl TypeError
      | originalState # _ \<Rightarrow>
          (case table_row t originalState of
             None \<Rightarrow> Inl TypeError
           | Some r \<Rightarrow>
               (case map_of r symbol of
                  Some (Some originalTransition) \<Rightarrow>
                    if originalTransition \<noteq> 0
                    then build_row t st remaped c symbols
                           (acc @ [(symbol, remaped_get remaped (currentTransitionMap st originalTransition))])
                    else build_row t st remaped c symbols acc
                | _ \<Rightarrow> build_row t st remaped c symbols acc)))"

fun build_rows ::
  "table \<Rightarrow> pstate \<Rightarrow> (cref \<times> nat) list \<Rightarrow> (cref \<times> nat) list \<Rightarrow> table \<Rightarrow> js_error + table" where
  "build_rows t st remaped [] minimized = Inr minimized"
| "build_rows t st remaped ((c, idx) # entries) minimized =
     (case build_row t st remaped c alphabet [] of
        Inl e \<Rightarrow> Inl e
      | Inr r \<Rightarrow> build_rows t st remaped entries (minimized @ [(idx, r)]))"

definition build_minimized :: "table \<Rightarrow> cref list \<Rightarrow> pstate \<Rightarrow> js_error + table" where
  "build_minimized t current st = build_rows t st (remaped_of current) (remaped_of current) []"

text \<open>
  The \<open>while (!sameRow(current, previous))\<close> loop. Not returning is the value \<open>None\<close>.
  After each round the module variable is replaced by \<open>newTransitionMap\<close>.
\<close>

partial_function (option) refine ::
  "table \<Rightarrow> cref list \<Rightarrow> cref list option \<Rightarrow> pstate \<Rightarrow> ((js_error + table) \<times> pstate) option" where
  "refine t current previous st =
     (if sameRow st current previous then Some (build_minimized t current st, st)
      else
        (case handle_classes current [] st of
           Inl e \<Rightarrow> Some (Inl e, st)
         | Inr (newTransitionMap, st') \<Rightarrow>
             refine t (map Obj (new_Set (map snd newTransitionMap))) (Some current)
               (st'\<lparr>currentTransitionMap := map_option Obj \<circ> map_of newTransitionMap\<rparr>)))"

declare refine.simps [code]

text \<open>
  Round 0: the \<open>allStates.forEach\<close> that fills the module variable. Its first statement is
  \<open>state = Number(state)\<close>; the entries of the module variable and the members of the Sets
  are these numbers.
\<close>

definition round0_step :: "nat \<Rightarrow> pstate \<Rightarrow> nat \<Rightarrow> pstate" where
  "round0_step nonAccepting st key =
     (let state = js_Number key in
      if state \<in> set accepting
      then st\<lparr>currentTransitionMap := (currentTransitionMap st)(state \<mapsto> Accepting)\<rparr>
      else st\<lparr>sets := (sets st)(nonAccepting := set_add (sets st nonAccepting) state),
              currentTransitionMap := (currentTransitionMap st)(state \<mapsto> Obj nonAccepting)\<rparr>)"

definition minimize :: "table \<Rightarrow> pstate \<Rightarrow> ((js_error + table) \<times> pstate) option" where
  "minimize t st =
     (case alloc_set [] st of (nonAccepting, st0) \<Rightarrow>
        (let st1 = foldl (round0_step nonAccepting) st0 (object_keys t);
             current = filter (\<lambda>c. length (elems st1 c) > 0) [Obj nonAccepting, Accepting]
         in refine t current None st1))"

section \<open>NFA-DFA-RegExp.js: states (the same class is the \<open>State\<close> of NFA.js)\<close>

definition EPSILON :: jsstring where
  "EPSILON = [949]"

definition EPSILON_CLOSURE :: jsstring where
  "EPSILON_CLOSURE = EPSILON @ js ''*''"

text \<open>
  State objects live in a heap and are referred to by their index. \<open>_transitions\<close> is a
  Map from symbol to a Set of states, both enumerated in insertion order;
  \<open>_epsilonClosure\<close> and \<open>number\<close> are \<open>undefined\<close> (\<open>None\<close>) until first assigned.
\<close>

type_synonym addr = nat

record nfa_state =
  transitions :: "(jsstring \<times> addr list) list"
  is_accepting :: bool
  epsilonClosure :: "addr list option"
  number :: "nat option"

type_synonym heap = "nfa_state list"

definition new_state :: "bool \<Rightarrow> heap \<Rightarrow> addr \<times> heap" where
  "new_state a h =
     (length h, h @ [\<lparr>transitions = [], is_accepting = a, epsilonClosure = None, number = None\<rparr>])"

text \<open>
  \<open>getTransitionsOnSymbol\<close> returns the Set stored under the symbol; when there is none it
  first stores a new empty Set under it, so the call changes the state.
\<close>

definition getTransitionsOnSymbol :: "heap \<Rightarrow> addr \<Rightarrow> jsstring \<Rightarrow> addr list \<times> heap" where
  "getTransitionsOnSymbol h q symbol =
     (case map_of (transitions (h ! q)) symbol of
        Some ts \<Rightarrow> (ts, h)
      | None \<Rightarrow> ([], h[q := (h ! q)\<lparr>transitions := map_set (transitions (h ! q)) symbol []\<rparr>]))"

definition addTransition :: "heap \<Rightarrow> addr \<Rightarrow> jsstring \<Rightarrow> addr \<Rightarrow> heap" where
  "addTransition h q symbol toState =
     (case getTransitionsOnSymbol h q symbol of (ts, h1) \<Rightarrow>
        h1[q := (h1 ! q)\<lparr>transitions := map_set (transitions (h1 ! q)) symbol (set_add ts toState)\<rparr>])"

definition set_accepting :: "heap \<Rightarrow> addr \<Rightarrow> bool \<Rightarrow> heap" where
  "set_accepting h q a = h[q := (h ! q)\<lparr>is_accepting := a\<rparr>]"

text \<open>
  \<open>matches(string, visited = new Set())\<close>. The first argument of the model bounds the depth
  of the recursion; \<open>None\<close> means the bound was too small. The two loops take the recursive
  call as a parameter. \<open>visited\<close> is one Set object shared along the epsilon transitions
  (\<open>matches_eps\<close>), so what a call adds to it is seen by the calls after it; every call on a
  symbol transition gets a new one (\<open>matches_sym\<close>).
\<close>

type_synonym matches_call =
  "heap \<Rightarrow> addr \<Rightarrow> jsstring \<Rightarrow> addr list \<Rightarrow> (bool \<times> addr list \<times> heap) option"

fun matches_eps ::
  "matches_call \<Rightarrow> heap \<Rightarrow> addr list \<Rightarrow> jsstring \<Rightarrow> addr list \<Rightarrow> (bool \<times> addr list \<times> heap) option" where
  "matches_eps call h [] string visited = Some (False, visited, h)"
| "matches_eps call h (nextState # others) string visited =
     (case call h nextState string visited of
        None \<Rightarrow> None
      | Some (True, visited', h') \<Rightarrow> Some (True, visited', h')
      | Some (False, visited', h') \<Rightarrow> matches_eps call h' others string visited')"

fun matches_sym :: "matches_call \<Rightarrow> heap \<Rightarrow> addr list \<Rightarrow> jsstring \<Rightarrow> (bool \<times> heap) option" where
  "matches_sym call h [] rest = Some (False, h)"
| "matches_sym call h (nextState # others) rest =
     (case call h nextState rest [] of
        None \<Rightarrow> None
      | Some (True, _, h') \<Rightarrow> Some (True, h')
      | Some (False, _, h') \<Rightarrow> matches_sym call h' others rest)"

primrec matches :: "nat \<Rightarrow> matches_call" where
  "matches 0 h q string visited = None"
| "matches (Suc n) h q string visited =
     (if q \<in> set visited then Some (False, visited, h)
      else
        (let visited1 = set_add visited q in
         case string of
           [] \<Rightarrow>
             if is_accepting (h ! q) then Some (True, visited1, h)
             else (case getTransitionsOnSymbol h q EPSILON of (es, h1) \<Rightarrow>
                     matches_eps (matches n) h1 es [] visited1)
         | symbol # rest \<Rightarrow>
             (case getTransitionsOnSymbol h q [symbol] of (symbolTransitions, h1) \<Rightarrow>
                (case matches_sym (matches n) h1 symbolTransitions rest of
                   None \<Rightarrow> None
                 | Some (True, h2) \<Rightarrow> Some (True, visited1, h2)
                 | Some (False, h2) \<Rightarrow>
                     (case getTransitionsOnSymbol h2 q EPSILON of (es, h3) \<Rightarrow>
                        matches_eps (matches n) h3 es string visited1)))))"

text \<open>
  \<open>getEpsilonClosure\<close>. The closure Set is stored in the state before the loop starts and
  grows in place, so a call that comes back to a state still being computed gets the Set as
  it is at that moment. The first argument again bounds the depth of the recursion.
\<close>

definition closure_of :: "heap \<Rightarrow> addr \<Rightarrow> addr list" where
  "closure_of h q = (case epsilonClosure (h ! q) of None \<Rightarrow> [] | Some c \<Rightarrow> c)"

definition closure_add :: "addr \<Rightarrow> heap \<Rightarrow> addr \<Rightarrow> heap" where
  "closure_add q h s = h[q := (h ! q)\<lparr>epsilonClosure := Some (set_add (closure_of h q) s)\<rparr>]"

fun closure_loop ::
  "(heap \<Rightarrow> addr \<Rightarrow> (addr list \<times> heap) option) \<Rightarrow> heap \<Rightarrow> addr \<Rightarrow> addr list \<Rightarrow> heap option" where
  "closure_loop call h q [] = Some h"
| "closure_loop call h q (nextState # others) =
     (if nextState \<in> set (closure_of h q) then closure_loop call h q others
      else
        (case call (closure_add q h nextState) nextState of
           None \<Rightarrow> None
         | Some (nextClosure, h') \<Rightarrow> closure_loop call (foldl (closure_add q) h' nextClosure) q others))"

primrec getEpsilonClosure :: "nat \<Rightarrow> heap \<Rightarrow> addr \<Rightarrow> (addr list \<times> heap) option" where
  "getEpsilonClosure 0 h q = None"
| "getEpsilonClosure (Suc n) h q =
     (case epsilonClosure (h ! q) of
        Some c \<Rightarrow> Some (c, h)
      | None \<Rightarrow>
          (case getTransitionsOnSymbol h q EPSILON of (epsilonTransitions, h1) \<Rightarrow>
             (case closure_loop (getEpsilonClosure n)
                     (h1[q := (h1 ! q)\<lparr>epsilonClosure := Some [q]\<rparr>]) q epsilonTransitions of
                None \<Rightarrow> None
              | Some h2 \<Rightarrow> Some (closure_of h2 q, h2))))"

section \<open>NFA-DFA-RegExp.js: fragments and their combinators\<close>

text \<open>
  An NFA object: its \<open>in\<close> and \<open>out\<close> states and the four memo fields, \<open>undefined\<close> until the
  first call of their getter.
\<close>

type_synonym nfa_row = "(jsstring \<times> nat list) list"
type_synonym nfa_table = "(nat \<times> nfa_row) list"

record nfa =
  in_state :: addr
  out_state :: addr
  alphabet_memo :: "jsstring list option"
  acceptingStates_memo :: "addr list option"
  acceptingStateNumbers_memo :: "nat list option"
  transitionTable_memo :: "nfa_table option"

definition NFA :: "addr \<Rightarrow> addr \<Rightarrow> nfa" where
  "NFA i out = \<lparr>in_state = i, out_state = out, alphabet_memo = None, acceptingStates_memo = None,
                acceptingStateNumbers_memo = None, transitionTable_memo = None\<rparr>"

definition char :: "jsstring \<Rightarrow> heap \<Rightarrow> nfa \<times> heap" where
  "char c h =
     (case new_state False h of (inState, h1) \<Rightarrow>
      case new_state True h1 of (outState, h2) \<Rightarrow>
        (NFA inState outState, addTransition h2 inState c outState))"

definition e :: "heap \<Rightarrow> nfa \<times> heap" where
  "e h = char EPSILON h"

text \<open>
  \<open>altPair\<close> also assigns \<open>first.out = second.in\<close>; that changes the argument object
  \<open>first\<close> only, which the returned fragment does not contain.
\<close>

definition altPair :: "nfa \<Rightarrow> nfa \<Rightarrow> heap \<Rightarrow> nfa \<times> heap" where
  "altPair first second h =
     (let h1 = set_accepting h (out_state first) False;
          h2 = set_accepting h1 (out_state second) True;
          h3 = addTransition h2 (out_state first) EPSILON (in_state second)
      in (NFA (in_state first) (out_state second), h3))"

definition orPair :: "nfa \<Rightarrow> nfa \<Rightarrow> heap \<Rightarrow> nfa \<times> heap" where
  "orPair first second h =
     (case new_state False h of (inState, h1) \<Rightarrow>
      case new_state False h1 of (outState, h2) \<Rightarrow>
        (let h3 = addTransition h2 inState EPSILON (in_state first);
             h4 = addTransition h3 inState EPSILON (in_state second);
             h5 = set_accepting h4 outState True;
             h6 = set_accepting h5 (out_state first) False;
             h7 = set_accepting h6 (out_state second) False;
             h8 = addTransition h7 (out_state first) EPSILON outState;
             h9 = addTransition h8 (out_state second) EPSILON outState
         in (NFA inState outState, h9)))"

definition rep :: "nfa \<Rightarrow> heap \<Rightarrow> nfa \<times> heap" where
  "rep fragment h =
     (case new_state False h of (inState, h1) \<Rightarrow>
      case new_state True h1 of (outState, h2) \<Rightarrow>
        (let h3 = addTransition h2 inState EPSILON (in_state fragment);
             h4 = addTransition h3 inState EPSILON outState;
             h5 = set_accepting h4 (out_state fragment) False;
             h6 = addTransition h5 (out_state fragment) EPSILON outState;
             h7 = addTransition h6 outState EPSILON (in_state fragment)
         in (NFA inState outState, h7)))"

text \<open>
  A combinator expression, evaluated as JavaScript does: the arguments from left to right,
  then the call; \<open>alt\<close> and \<open>or\<close> fold their pair function over the further arguments.
\<close>

datatype frag = Char jsstring | E | Alt frag "frag list" | Or frag "frag list" | Rep frag

fun fold_pair :: "(nfa \<Rightarrow> nfa \<Rightarrow> heap \<Rightarrow> nfa \<times> heap) \<Rightarrow> nfa \<Rightarrow> nfa list \<Rightarrow> heap \<Rightarrow> nfa \<times> heap" where
  "fold_pair pair first [] h = (first, h)"
| "fold_pair pair first (fragment # fragments) h =
     (case pair first fragment h of (first', h') \<Rightarrow> fold_pair pair first' fragments h')"

fun build :: "frag \<Rightarrow> heap \<Rightarrow> nfa \<times> heap"
and build_args :: "frag list \<Rightarrow> heap \<Rightarrow> nfa list \<times> heap"
where
  "build (Char c) h = char c h"
| "build E h = e h"
| "build (Alt f fs) h =
     (case build f h of (first, h1) \<Rightarrow>
      case build_args fs h1 of (fragments, h2) \<Rightarrow> fold_pair altPair first fragments h2)"
| "build (Or f fs) h =
     (case build f h of (first, h1) \<Rightarrow>
      case build_args fs h1 of (fragments, h2) \<Rightarrow> fold_pair orPair first fragments h2)"
| "build (Rep f) h = (case build f h of (fragment, h1) \<Rightarrow> rep fragment h1)"
| "build_args [] h = ([], h)"
| "build_args (f # fs) h =
     (case build f h of (x, h1) \<Rightarrow>
      case build_args fs h1 of (xs, h2) \<Rightarrow> (x # xs, h2))"

text \<open>\<open>NFA.matches(string)\<close>: \<open>this.in.matches(string)\<close>, with a new \<open>visited\<close> Set.\<close>

definition nfa_matches :: "nat \<Rightarrow> heap \<Rightarrow> nfa \<Rightarrow> jsstring \<Rightarrow> (bool \<times> heap) option" where
  "nfa_matches n h a string =
     (case matches n h (in_state a) string [] of
        None \<Rightarrow> None
      | Some (b, _, h') \<Rightarrow> Some (b, h'))"

section \<open>NFA-DFA-RegExp.js: the NFA transition table\<close>

text \<open>
  The rows of the table are objects keyed by symbol. \<open>for (symbol in row)\<close> lists the keys
  that are array indices (canonical decimal strings below \<open>2^32 - 1\<close>) first, in ascending
  order, and then the other keys in insertion order.
\<close>

definition parse_nat :: "jsstring \<Rightarrow> nat" where
  "parse_nat k = foldl (\<lambda>a d. 10 * a + (d - 48)) 0 k"

definition array_index :: "jsstring \<Rightarrow> nat option" where
  "array_index k =
     (if k \<noteq> [] \<and> list_all (\<lambda>d. 48 \<le> d \<and> d \<le> 57) k \<and> show_nat (parse_nat k) = k \<and>
         parse_nat k < 4294967295
      then Some (parse_nat k) else None)"

definition own_keys :: "(jsstring \<times> 'v) list \<Rightarrow> jsstring list" where
  "own_keys obj =
     map show_nat (sort (List.map_filter array_index (map fst obj))) @
     filter (\<lambda>k. array_index k = None) (map fst obj)"

text \<open>
  The traversal state of \<open>getTransitionTable\<close>: the local Sets \<open>visited\<close> and \<open>symbols\<close>, and
  the fields \<open>_transitionTable\<close> and \<open>_acceptingStates\<close> being filled. Reading the
  \<open>number\<close> of a state that has none yet does not happen in the source (a state is numbered
  before its number is read); the model stops with \<open>NoNumber\<close> there.
\<close>

record table_build =
  visited :: "addr list"
  symbols :: "jsstring list"
  tt :: nfa_table
  acc_states :: "addr list"

type_synonym visit_call =
  "heap \<times> table_build \<Rightarrow> addr \<Rightarrow> (js_error + heap \<times> table_build) option"

definition row_put :: "nfa_table \<Rightarrow> nat \<Rightarrow> jsstring \<Rightarrow> nat list \<Rightarrow> js_error + nfa_table" where
  "row_put t num symbol v =
     (case map_of t num of
        None \<Rightarrow> Inl TypeError
      | Some r \<Rightarrow> Inr (obj_put t num (map_set r symbol v)))"

fun visit_targets ::
  "visit_call \<Rightarrow> heap \<times> table_build \<Rightarrow> addr list \<Rightarrow> nat list \<Rightarrow>
     (js_error + (heap \<times> table_build) \<times> nat list) option" where
  "visit_targets call s [] combinedState = Some (Inr (s, combinedState))"
| "visit_targets call s (nextState # others) combinedState =
     (case call s nextState of
        None \<Rightarrow> None
      | Some (Inl err) \<Rightarrow> Some (Inl err)
      | Some (Inr s') \<Rightarrow>
          (case number (fst s' ! nextState) of
             None \<Rightarrow> Some (Inl NoNumber)
           | Some k \<Rightarrow> visit_targets call s' others (combinedState @ [k])))"

fun visit_symbols ::
  "visit_call \<Rightarrow> heap \<times> table_build \<Rightarrow> addr \<Rightarrow> (jsstring \<times> addr list) list \<Rightarrow>
     (js_error + heap \<times> table_build) option" where
  "visit_symbols call s state [] = Some (Inr s)"
| "visit_symbols call s state ((symbol, symbolTransitions) # others) =
     (case visit_targets call (fst s, (snd s)\<lparr>symbols := set_add (symbols (snd s)) symbol\<rparr>)
             symbolTransitions [] of
        None \<Rightarrow> None
      | Some (Inl err) \<Rightarrow> Some (Inl err)
      | Some (Inr ((h, b), combinedState)) \<Rightarrow>
          (case number (h ! state) of
             None \<Rightarrow> Some (Inl NoNumber)
           | Some num \<Rightarrow>
               (case row_put (tt b) num symbol combinedState of
                  Inl err \<Rightarrow> Some (Inl err)
                | Inr t \<Rightarrow> visit_symbols call (h, b\<lparr>tt := t\<rparr>) state others)))"

primrec visitState :: "nat \<Rightarrow> visit_call" where
  "visitState 0 s state = None"
| "visitState (Suc n) s state =
     (case s of (h, b) \<Rightarrow>
        if state \<in> set (visited b) then Some (Inr s)
        else
          (let vis = set_add (visited b) state;
               h1 = h[state := (h ! state)\<lparr>number := Some (length vis)\<rparr>];
               b1 = b\<lparr>visited := vis,
                      tt := obj_put (tt b) (length vis) [],
                      acc_states := (if is_accepting (h1 ! state)
                                     then set_add (acc_states b) state else acc_states b)\<rparr>
           in visit_symbols (visitState n) (h1, b1) state (transitions (h1 ! state))))"

text \<open>\<open>[...closure].map(s => s.number)\<close>.\<close>

fun numbers_of :: "heap \<Rightarrow> addr list \<Rightarrow> js_error + nat list" where
  "numbers_of h [] = Inr []"
| "numbers_of h (s # ss) =
     (case number (h ! s) of
        None \<Rightarrow> Inl NoNumber
      | Some k \<Rightarrow> (case numbers_of h ss of Inl err \<Rightarrow> Inl err | Inr ks \<Rightarrow> Inr (k # ks)))"

text \<open>
  The second pass: for every visited state, delete the \<open>EPSILON\<close> column of its row and store
  the numbers of its epsilon-closure under \<open>EPSILON_CLOSURE\<close>.
\<close>

fun closure_columns ::
  "nat \<Rightarrow> heap \<Rightarrow> nfa_table \<Rightarrow> addr list \<Rightarrow> (js_error + nfa_table \<times> heap) option" where
  "closure_columns n h t [] = Some (Inr (t, h))"
| "closure_columns n h t (state # others) =
     (case number (h ! state) of
        None \<Rightarrow> Some (Inl NoNumber)
      | Some num \<Rightarrow>
          (case map_of t num of
             None \<Rightarrow> Some (Inl TypeError)
           | Some r \<Rightarrow>
               (case getEpsilonClosure n h state of
                  None \<Rightarrow> None
                | Some (closure, h') \<Rightarrow>
                    (case numbers_of h' closure of
                       Inl err \<Rightarrow> Some (Inl err)
                     | Inr ks \<Rightarrow>
                         closure_columns n h'
                           (obj_put t num
                              (map_set (filter (\<lambda>kv. fst kv \<noteq> EPSILON) r) EPSILON_CLOSURE ks))
                           others))))"

definition getTransitionTable ::
  "nat \<Rightarrow> heap \<Rightarrow> nfa \<Rightarrow> (js_error + nfa_table \<times> nfa \<times> heap) option" where
  "getTransitionTable n h a =
     (case transitionTable_memo a of
        Some t \<Rightarrow> Some (Inr (t, a, h))
      | None \<Rightarrow>
          (case visitState n (h, \<lparr>visited = [], symbols = [], tt = [], acc_states = []\<rparr>) (in_state a) of
             None \<Rightarrow> None
           | Some (Inl err) \<Rightarrow> Some (Inl err)
           | Some (Inr (h1, b)) \<Rightarrow>
               (case closure_columns n h1 (tt b) (visited b) of
                  None \<Rightarrow> None
                | Some (Inl err) \<Rightarrow> Some (Inl err)
                | Some (Inr (t, h2)) \<Rightarrow>
                    Some (Inr (t, a\<lparr>transitionTable_memo := Some t,
                                    acceptingStates_memo := Some (acc_states b)\<rparr>, h2)))))"

definition getAlphabet ::
  "nat \<Rightarrow> heap \<Rightarrow> nfa \<Rightarrow> (js_error + jsstring list \<times> nfa \<times> heap) option" where
  "getAlphabet n h a =
     (case alphabet_memo a of
        Some al \<Rightarrow> Some (Inr (al, a, h))
      | None \<Rightarrow>
          (case getTransitionTable n h a of
             None \<Rightarrow> None
           | Some (Inl err) \<Rightarrow> Some (Inl err)
           | Some (Inr (t, a1, h1)) \<Rightarrow>
               (let al = new_Set (concat (map (\<lambda>(state, transitions).
                            filter (\<lambda>symbol. symbol \<noteq> EPSILON_CLOSURE) (own_keys transitions)) t))
                in Some (Inr (al, a1\<lparr>alphabet_memo := Some al\<rparr>, h1)))))"

definition getAcceptingStates ::
  "nat \<Rightarrow> heap \<Rightarrow> nfa \<Rightarrow> (js_error + addr list \<times> nfa \<times> heap) option" where
  "getAcceptingStates n h a =
     (case acceptingStates_memo a of
        Some ss \<Rightarrow> Some (Inr (ss, a, h))
      | None \<Rightarrow>
          (case getTransitionTable n h a of
             None \<Rightarrow> None
           | Some (Inl err) \<Rightarrow> Some (Inl err)
           | Some (Inr (t, a1, h1)) \<Rightarrow>
               (case acceptingStates_memo a1 of
                  None \<Rightarrow> Some (Inl TypeError)
                | Some ss \<Rightarrow> Some (Inr (ss, a1, h1)))))"

definition getAcceptingStateNumbers ::
  "nat \<Rightarrow> heap \<Rightarrow> nfa \<Rightarrow> (js_error + nat list \<times> nfa \<times> heap) option" where
  "getAcceptingStateNumbers n h a =
     (case acceptingStateNumbers_memo a of
        Some ks \<Rightarrow> Some (Inr (ks, a, h))
      | None \<Rightarrow>
          (case getAcceptingStates n h a of
             None \<Rightarrow> None
           | Some (Inl err) \<Rightarrow> Some (Inl err)
           | Some (Inr (ss, a1, h1)) \<Rightarrow>
               (case numbers_of h1 ss of
                  Inl err \<Rightarrow> Some (Inl err)
                | Inr ks \<Rightarrow>
                    Some (Inr (new_Set ks, a1\<lparr>acceptingStateNumbers_memo := Some (new_Set ks)\<rparr>, h1)))))"

section \<open>NFA-DFA-RegExp.js: the DFA\<close>

text \<open>
  A DFA table maps a label to a row and a row maps a symbol to a label; both are objects
  whose key order is never read. The subset construction reads the NFA table, the NFA
  alphabet and the NFA accepting numbers. Reading a property of \<open>undefined\<close> and
  spreading \<open>undefined\<close> throw.
\<close>

type_synonym dfa_row = "(jsstring \<times> jsstring) list"
type_synonym dfa_table = "(jsstring \<times> dfa_row) list"

fun fold_err :: "('s \<Rightarrow> 'a \<Rightarrow> js_error + 's) \<Rightarrow> 's \<Rightarrow> 'a list \<Rightarrow> js_error + 's" where
  "fold_err f s [] = Inr s"
| "fold_err f s (x # xs) = (case f s x of Inl err \<Rightarrow> Inl err | Inr s' \<Rightarrow> fold_err f s' xs)"

text \<open>The body of \<open>nfaStatesOnSymbol.forEach\<close> and of \<open>states.forEach\<close>.\<close>

definition on_target :: "nfa_table \<Rightarrow> nat list \<Rightarrow> nat \<Rightarrow> js_error + nat list" where
  "on_target nfaTable onSymbol nfaStateOnSymbol =
     (case map_of nfaTable nfaStateOnSymbol of
        None \<Rightarrow> Inr onSymbol
      | Some r \<Rightarrow>
          (case map_of r EPSILON_CLOSURE of
             None \<Rightarrow> Inl TypeError
           | Some c \<Rightarrow> Inr (onSymbol @ c)))"

definition on_state :: "nfa_table \<Rightarrow> jsstring \<Rightarrow> nat list \<Rightarrow> nat \<Rightarrow> js_error + nat list" where
  "on_state nfaTable symbol onSymbol state =
     (case map_of nfaTable state of
        None \<Rightarrow> Inl TypeError
      | Some r \<Rightarrow>
          (case map_of r symbol of
             None \<Rightarrow> Inr onSymbol
           | Some nfaStatesOnSymbol \<Rightarrow> fold_err (on_target nfaTable) onSymbol nfaStatesOnSymbol))"

record dfa_build =
  dfaTable :: dfa_table
  acceptingStateNumbers :: "jsstring list"
  worklist :: "nat list list"

text \<open>
  The body of \<open>getAlphabet().forEach\<close> for the state \<open>states\<close> taken from the worklist. Only a
  non-empty target is labelled, tested for acceptance, stored, and put in front of the
  worklist when the table has no row of that label yet.
\<close>

definition on_symbol ::
  "nfa_table \<Rightarrow> nat list \<Rightarrow> nat list \<Rightarrow> dfa_build \<Rightarrow> jsstring \<Rightarrow> js_error + dfa_build" where
  "on_symbol nfaTable nfaAcceptingStates states d symbol =
     (case fold_err (on_state nfaTable symbol) [] states of
        Inl err \<Rightarrow> Inl err
      | Inr onSymbol \<Rightarrow>
          (let dfaStatesOnSymbol = new_Set onSymbol in
           if length dfaStatesOnSymbol > 0 then
             (let dfaOnSymbolStr = join_ids dfaStatesOnSymbol;
                  dfaStateLabel = join_ids states;
                  acc = (if list_ex (\<lambda>nfaAcceptingState. nfaAcceptingState \<in> set dfaStatesOnSymbol)
                              nfaAcceptingStates
                         then set_add (acceptingStateNumbers d) dfaOnSymbolStr
                         else acceptingStateNumbers d)
              in case map_of (dfaTable d) dfaStateLabel of
                   None \<Rightarrow> Inl TypeError
                 | Some r \<Rightarrow>
                     (let t = map_set (dfaTable d) dfaStateLabel (map_set r symbol dfaOnSymbolStr)
                      in Inr (d\<lparr>dfaTable := t, acceptingStateNumbers := acc,
                                worklist := (if dfaOnSymbolStr \<in> set (map fst t) then worklist d
                                             else dfaStatesOnSymbol # worklist d)\<rparr>)))
           else Inr d))"

text \<open>The \<open>while (worklist.length > 0)\<close> loop; not returning is the value \<open>None\<close>.\<close>

partial_function (option) dfa_loop ::
  "nfa_table \<Rightarrow> jsstring list \<Rightarrow> nat list \<Rightarrow> dfa_build \<Rightarrow> (js_error + dfa_build) option" where
  "dfa_loop nfaTable al nfaAcceptingStates d =
     (case worklist d of
        [] \<Rightarrow> Some (Inr d)
      | states # wl \<Rightarrow>
          (case fold_err (on_symbol nfaTable nfaAcceptingStates states)
                  (d\<lparr>worklist := wl, dfaTable := map_set (dfaTable d) (join_ids states) []\<rparr>) al of
             Inl err \<Rightarrow> Some (Inl err)
           | Inr d' \<Rightarrow> dfa_loop nfaTable al nfaAcceptingStates d'))"

declare dfa_loop.simps [code]

text \<open>
  The subset construction on an NFA table: the start state is the closure column of the
  first row, and its label is the starting state "number".
\<close>

definition start_state :: "nfa_table \<Rightarrow> js_error + nat list" where
  "start_state nfaTable =
     (case nfaTable of
        [] \<Rightarrow> Inl TypeError
      | (k, r) # _ \<Rightarrow> (case map_of r EPSILON_CLOSURE of None \<Rightarrow> Inl TypeError | Some c \<Rightarrow> Inr c))"

definition subset_construction ::
  "nfa_table \<Rightarrow> jsstring list \<Rightarrow> nat list \<Rightarrow> (js_error + jsstring \<times> dfa_build) option" where
  "subset_construction nfaTable al nfaAcceptingStates =
     (case start_state nfaTable of
        Inl err \<Rightarrow> Some (Inl err)
      | Inr startState \<Rightarrow>
          (case dfa_loop nfaTable al nfaAcceptingStates
                  \<lparr>dfaTable = [], acceptingStateNumbers = [], worklist = [startState]\<rparr> of
             None \<Rightarrow> None
           | Some (Inl err) \<Rightarrow> Some (Inl err)
           | Some (Inr d) \<Rightarrow> Some (Inr (join_ids startState, d))))"

text \<open>
  A DFA object: the NFA it was made from and its three memo fields. \<open>getTransitionTable\<close>
  asks the NFA for its table, alphabet and accepting numbers (filling the NFA's memo
  fields) and runs the subset construction.
\<close>

record dfa =
  nfa_of :: nfa
  startingStateNumber_memo :: "jsstring option"
  dfa_acceptingStateNumbers_memo :: "jsstring list option"
  dfa_transitionTable_memo :: "dfa_table option"

definition DFA :: "nfa \<Rightarrow> dfa" where
  "DFA a = \<lparr>nfa_of = a, startingStateNumber_memo = None, dfa_acceptingStateNumbers_memo = None,
            dfa_transitionTable_memo = None\<rparr>"

definition dfa_getTransitionTable ::
  "nat \<Rightarrow> heap \<Rightarrow> dfa \<Rightarrow> (js_error + dfa_table \<times> dfa \<times> heap) option" where
  "dfa_getTransitionTable n h d =
     (case dfa_transitionTable_memo d of
        Some t \<Rightarrow> Some (Inr (t, d, h))
      | None \<Rightarrow>
          (case getTransitionTable n h (nfa_of d) of
             None \<Rightarrow> None
           | Some (Inl err) \<Rightarrow> Some (Inl err)
           | Some (Inr (nfaTable, a1, h1)) \<Rightarrow>
               (case getAlphabet n h1 a1 of
                  None \<Rightarrow> None
                | Some (Inl err) \<Rightarrow> Some (Inl err)
                | Some (Inr (al, a2, h2)) \<Rightarrow>
                    (case getAcceptingStateNumbers n h2 a2 of
                       None \<Rightarrow> None
                     | Some (Inl err) \<Rightarrow> Some (Inl err)
                     | Some (Inr (nfaAcceptingStates, a3, h3)) \<Rightarrow>
                         (case subset_construction nfaTable al nfaAcceptingStates of
                            None \<Rightarrow> None
                          | Some (Inl err) \<Rightarrow> Some (Inl err)
                          | Some (Inr (start, b)) \<Rightarrow>
                              Some (Inr (dfaTable b,
                                         d\<lparr>nfa_of := a3,
                                           startingStateNumber_memo := Some start,
                                           dfa_acceptingStateNumbers_memo := Some (acceptingStateNumbers b),
                                           dfa_transitionTable_memo := Some (dfaTable b)\<rparr>,
                                         h3)))))))"

text \<open>
  \<open>DFA.matches\<close>: the walk over the input. A missing transition (or an empty label, which
  is falsy) rejects; a missing row throws.
\<close>

fun dfa_walk :: "dfa_table \<Rightarrow> jsstring \<Rightarrow> jsstring \<Rightarrow> js_error + jsstring option" where
  "dfa_walk t state [] = Inr (Some state)"
| "dfa_walk t state (c # cs) =
     (case map_of t state of
        None \<Rightarrow> Inl TypeError
      | Some r \<Rightarrow>
          (case map_of r [c] of
             None \<Rightarrow> Inr None
           | Some state' \<Rightarrow> if state' = [] then Inr None else dfa_walk t state' cs))"

definition dfa_matches :: "nat \<Rightarrow> heap \<Rightarrow> dfa \<Rightarrow> jsstring \<Rightarrow> (js_error + bool \<times> dfa \<times> heap) option" where
  "dfa_matches n h d string =
     (case dfa_getTransitionTable n h d of
        None \<Rightarrow> None
      | Some (Inl err) \<Rightarrow> Some (Inl err)
      | Some (Inr (t, d1, h1)) \<Rightarrow>
          (case (startingStateNumber_memo d1, dfa_acceptingStateNumbers_memo d1) of
             (Some start, Some acc) \<Rightarrow>
               (case dfa_walk t start string of
                  Inl err \<Rightarrow> Some (Inl err)
                | Inr None \<Rightarrow> Some (Inr (False, d1, h1))
                | Inr (Some state) \<Rightarrow> Some (Inr (state \<in> set acc, d1, h1)))
           | _ \<Rightarrow> Some (Inl TypeError)))"

section \<open>Running the pipeline on a combinator expression\<close>

text \<open>
  The observations the results below are stated on, each starting from the heap in which
  the expression has just been built: \<open>nfa.matches(w)\<close>; \<open>new DFA(nfa)\<close> after its
  \<open>getTransitionTable()\<close>; \<open>new DFA(nfa).matches(w)\<close>.
\<close>

definition nfa_result :: "nat \<Rightarrow> frag \<Rightarrow> jsstring \<Rightarrow> bool option" where
  "nfa_result n f w = (case build f [] of (a, h) \<Rightarrow> map_option fst (nfa_matches n h a w))"

definition dfa_built :: "nat \<Rightarrow> frag \<Rightarrow> (js_error + dfa) option" where
  "dfa_built n f =
     (case build f [] of (a, h) \<Rightarrow>
        (case dfa_getTransitionTable n h (DFA a) of
           None \<Rightarrow> None
         | Some (Inl err) \<Rightarrow> Some (Inl err)
         | Some (Inr (t, d, h')) \<Rightarrow> Some (Inr d)))"

definition dfa_result :: "nat \<Rightarrow> frag \<Rightarrow> jsstring \<Rightarrow> (js_error + bool) option" where
  "dfa_result n f w =
     (case build f [] of (a, h) \<Rightarrow>
        (case dfa_matches n h (DFA a) w of
           None \<Rightarrow> None
         | Some (Inl err) \<Rightarrow> Some (Inl err)
         | Some (Inr (b, d, h')) \<Rightarrow> Some (Inr b)))"

text \<open>\<open>nfa.in.getEpsilonClosure()\<close> followed by \<open>nfa.out.getEpsilonClosure()\<close>.\<close>

definition closures_in_out :: "nat \<Rightarrow> frag \<Rightarrow> (addr list \<times> addr list) option" where
  "closures_in_out n f =
     (case build f [] of (a, h) \<Rightarrow>
        (case getEpsilonClosure n h (in_state a) of
           None \<Rightarrow> None
         | Some (c1, h1) \<Rightarrow>
             (case getEpsilonClosure n h1 (out_state a) of
                None \<Rightarrow> None
              | Some (c2, h2) \<Rightarrow> Some (c1, c2))))"

text \<open>
  \<open>nfa.matches(w); nfa.getAlphabet()\<close> against
  \<open>nfa.getTransitionTable(); nfa.matches(w); nfa.getAlphabet()\<close>: the alphabet and the table
  the NFA object ends with.
\<close>

definition matches_then_alphabet ::
  "nat \<Rightarrow> frag \<Rightarrow> jsstring \<Rightarrow> (js_error + jsstring list \<times> nfa_table option) option" where
  "matches_then_alphabet n f w =
     (case build f [] of (a, h) \<Rightarrow>
        (case nfa_matches n h a w of
           None \<Rightarrow> None
         | Some (b, h1) \<Rightarrow>
             (case getAlphabet n h1 a of
                None \<Rightarrow> None
              | Some (Inl err) \<Rightarrow> Some (Inl err)
              | Some (Inr (al, a1, h2)) \<Rightarrow> Some (Inr (al, transitionTable_memo a1)))))"

definition table_then_matches_then_alphabet ::
  "nat \<Rightarrow> frag \<Rightarrow> jsstring \<Rightarrow> (js_error + jsstring list \<times> nfa_table option) option" where
  "table_then_matches_then_alphabet n f w =
     (case build f [] of (a, h) \<Rightarrow>
        (case getTransitionTable n h a of
           None \<Rightarrow> None
         | Some (Inl err) \<Rightarrow> Some (Inl err)
         | Some (Inr (t, a1, h1)) \<Rightarrow>
             (case nfa_matches n h1 a1 w of
                None \<Rightarrow> None
              | Some (b, h2) \<Rightarrow>
                  (case getAlphabet n h2 a1 of
                     None \<Rightarrow> None
                   | Some (Inl err) \<Rightarrow> Some (Inl err)
                   | Some (Inr (al, a2, h3)) \<Rightarrow> Some (Inr (al, transitionTable_memo a2))))))"




text \<open>A table on which two non-accepting ids differ in where they go: 1 goes on \<open>a\<close> to
  the accepting id 2, 4 goes on \<open>a\<close> to itself.\<close>

definition table_split :: table where
  "table_split = [(1, [(js ''a'', Some 2)]), (2, []), (3, []), (4, [(js ''a'', Some 4)])]"

text \<open>
  Two calls in one process: \<open>minimize(t1)\<close> (its result, or its exception, dropped) and then
  \<open>minimize(t2)\<close>, whose result is returned. The module state left by the first call is the
  state the second call starts in.
\<close>

definition minimize_then :: "table \<Rightarrow> table \<Rightarrow> pstate \<Rightarrow> (js_error + table) option" where
  "minimize_then t1 t2 st =
     (case minimize t1 st of None \<Rightarrow> None | Some r \<Rightarrow> map_option fst (minimize t2 (snd r)))"

text \<open>
  The module state once the file is loaded: its last statement prints \<open>minimize(table)\<close>.
\<close>

definition state_after_load :: pstate where
  "state_after_load = (case minimize table0 init_pstate of Some r \<Rightarrow> snd r | None \<Rightarrow> init_pstate)"


subsection \<open>What \<open>minimize\<close> returns when every id of a class has an entry in the module map\<close>

text \<open>
  The row that step 2 builds for a class from the table row \<open>r\<close> of its first member, when
  \<open>idx\<close> gives the number of the class of a target id: one entry per alphabet symbol on which
  \<open>r\<close> has a truthy transition.
\<close>

definition row_entries :: "row \<Rightarrow> (nat \<Rightarrow> nat option) \<Rightarrow> row" where
  "row_entries r idx =
     concat (map (\<lambda>symbol. case map_of r symbol of
                               Some (Some tr) \<Rightarrow> if tr \<noteq> 0 then [(symbol, idx tr)] else []
                             | _ \<Rightarrow> []) alphabet)"

text \<open>The class numbers of the ids when there is one class, and when there are two.\<close>

definition idx1 :: "nat list \<Rightarrow> nat \<Rightarrow> nat option" where
  "idx1 l k = (if k \<in> set l then Some 1 else None)"

definition idx2 :: "nat list \<Rightarrow> nat list \<Rightarrow> nat \<Rightarrow> nat option" where
  "idx2 l1 l2 k = (if k \<in> set l1 then Some 1 else if k \<in> set l2 then Some 2 else None)"

text \<open>The tables of one and of two classes, each row read off the first member.\<close>

definition closed1 :: "table \<Rightarrow> nat list \<Rightarrow> table" where
  "closed1 t l = [(1, row_entries (the (map_of t (hd l))) (idx1 l))]"

definition closed2 :: "table \<Rightarrow> nat list \<Rightarrow> nat list \<Rightarrow> table" where
  "closed2 t l1 l2 =
     [(1, row_entries (the (map_of t (hd l1))) (idx2 l1 l2)),
      (2, row_entries (the (map_of t (hd l2))) (idx2 l1 l2))]"

text \<open>
  The configurations the loop stays in: \<open>current\<close> holds one Set (two Sets) allocated
  earlier, with the members \<open>l\<close> (\<open>l1\<close> and \<open>l2\<close>), all of them array indices, and the
  module map sends exactly the members to their Set.
\<close>

definition stable1 :: "pstate \<Rightarrow> cref list \<Rightarrow> nat list \<Rightarrow> bool" where
  "stable1 st cur l \<longleftrightarrow>
     (\<exists>a. cur = [Obj a] \<and> a < fresh st \<and> sets st a = l \<and>
          currentTransitionMap st = (\<lambda>k. if k \<in> set l then Some (Obj a) else None)) \<and>
     (\<forall>x\<in>set l. x < 4294967295)"

definition stable2 :: "pstate \<Rightarrow> cref list \<Rightarrow> nat list \<Rightarrow> nat list \<Rightarrow> bool" where
  "stable2 st cur l1 l2 \<longleftrightarrow>
     (\<exists>a b. cur = [Obj a, Obj b] \<and> a \<noteq> b \<and> a < fresh st \<and> b < fresh st \<and>
            sets st a = l1 \<and> sets st b = l2 \<and>
            currentTransitionMap st =
              (\<lambda>k. if k \<in> set l1 then Some (Obj a) else if k \<in> set l2 then Some (Obj b) else None)) \<and>
     (\<forall>x\<in>set l1 \<union> set l2. x < 4294967295)"

text \<open>
  The table returned for \<open>t\<close>: the non-accepting keys of \<open>t\<close> form one class, the module's
  \<open>accepting\<close> Set the other, and the class holding the least id is numbered 1.
\<close>

definition minimized_of :: "table \<Rightarrow> table" where
  "minimized_of t =
     (let na = filter (\<lambda>k. k \<notin> set accepting) (object_keys t) in
      if na = [] then closed1 t accepting
      else if Min (set na \<union> set accepting) \<in> set na then closed2 t na accepting
      else closed2 t accepting na)"

subsection \<open>Accepting paths in the graph of states\<close>

text \<open>
  The targets of the transitions of a state on a symbol: the Set stored under the symbol, none
  when the Map has no entry.
\<close>

definition edges :: "heap \<Rightarrow> addr \<Rightarrow> jsstring \<Rightarrow> addr list" where
  "edges h q symbol = (case map_of (transitions (h ! q)) symbol of None \<Rightarrow> [] | Some ts \<Rightarrow> ts)"

text \<open>Every target of a transition is a state of the heap (references are never dangling).\<close>

definition wf_heap :: "heap \<Rightarrow> bool" where
  "wf_heap h =
     list_all (\<lambda>s. list_all (\<lambda>entry. list_all (\<lambda>p. p < length h) (snd entry)) (transitions s)) h"

text \<open>Every symbol under which a state stores transitions is one unit long.\<close>

definition unit_symbols :: "heap \<Rightarrow> bool" where
  "unit_symbols h = list_all (\<lambda>s. list_all (\<lambda>entry. length (fst entry) = 1) (transitions s)) h"

text \<open>
  The specification's notion of acceptance, in its own words: some path from the state,
  interleaving input-symbol edges and epsilon edges, consumes the entire input and ends at an
  accepting state. An epsilon edge is an edge stored under \<open>EPSILON\<close> and consumes nothing;
  an input-symbol edge is an edge stored under any other symbol, and consumes that symbol at
  the front of the input.
\<close>

inductive accepts :: "heap \<Rightarrow> addr \<Rightarrow> jsstring \<Rightarrow> bool" for h :: heap where
  accepts_end: "is_accepting (h ! q) \<Longrightarrow> accepts h q []"
| accepts_symbol:
    "symbol \<noteq> EPSILON \<Longrightarrow> symbol \<noteq> [] \<Longrightarrow> p \<in> set (edges h q symbol) \<Longrightarrow> accepts h p w \<Longrightarrow>
     accepts h q (symbol @ w)"
| accepts_epsilon: "p \<in> set (edges h q EPSILON) \<Longrightarrow> accepts h p w \<Longrightarrow> accepts h q w"

text \<open>
  What the lookups of \<open>matches\<close> follow: the same relation, except that the edges followed on
  an input unit \<open>c\<close> are all those stored under the one-unit string \<open>c\<close>, the ones under
  \<open>EPSILON\<close> (the string of the unit U+03B5) among them.
\<close>

inductive walks :: "heap \<Rightarrow> addr \<Rightarrow> jsstring \<Rightarrow> bool" for h :: heap where
  walks_end: "is_accepting (h ! q) \<Longrightarrow> walks h q []"
| walks_symbol: "p \<in> set (edges h q [c]) \<Longrightarrow> walks h p w \<Longrightarrow> walks h q (c # w)"
| walks_epsilon: "p \<in> set (edges h q EPSILON) \<Longrightarrow> walks h p w \<Longrightarrow> walks h q w"

code_pred walks .

text \<open>
  Heaps with the same states, edges and accepting flags; looking up an absent symbol changes
  the heap but stays within this relation.
\<close>

definition same_graph :: "heap \<Rightarrow> heap \<Rightarrow> bool" where
  "same_graph h h' \<longleftrightarrow>
     length h' = length h \<and> edges h' = edges h \<and>
     (\<forall>q. is_accepting (h' ! q) = is_accepting (h ! q))"

text \<open>
  A state from which the walk succeeds on the remaining input without a leading epsilon
  edge: accepting when nothing is left, otherwise with an edge stored under the next unit to
  a state from which the walk succeeds on the rest.
\<close>

definition is_goal :: "heap \<Rightarrow> addr \<Rightarrow> jsstring \<Rightarrow> bool" where
  "is_goal h p w =
     (case w of [] \<Rightarrow> is_accepting (h ! p)
      | c # rest \<Rightarrow> (\<exists>p'\<in>set (edges h p [c]). walks h p' rest))"

text \<open>
  What a call of \<open>matches\<close> guarantees about its result \<open>(answer, visited, heap)\<close>: the graph
  is unchanged and \<open>visited\<close> only grows; the answer \<open>true\<close> comes with a path of \<open>walks\<close>; after
  the answer \<open>false\<close> the state is visited, and every newly visited state is no goal and has
  all its epsilon successors visited. \<open>call_ok\<close> says this of a recursive call, for every
  \<open>visited\<close> Set of at least \<open>k\<close> states; \<open>fuel_needed\<close> is a depth that suffices.
\<close>

definition matches_post :: "heap \<Rightarrow> addr \<Rightarrow> jsstring \<Rightarrow> addr list \<Rightarrow> bool \<times> addr list \<times> heap \<Rightarrow> bool" where
  "matches_post h0 q w V r \<longleftrightarrow>
     same_graph h0 (snd (snd r)) \<and> set V \<subseteq> set (fst (snd r)) \<and>
     set (fst (snd r)) \<subseteq> {..<length h0} \<and>
     (fst r \<longrightarrow> walks h0 q w) \<and>
     (\<not> fst r \<longrightarrow> q \<in> set (fst (snd r)) \<and>
        (\<forall>p\<in>set (fst (snd r)) - set V.
           \<not> is_goal h0 p w \<and> set (edges h0 p EPSILON) \<subseteq> set (fst (snd r))))"

definition call_ok :: "heap \<Rightarrow> matches_call \<Rightarrow> jsstring \<Rightarrow> nat \<Rightarrow> bool" where
  "call_ok h0 call w k \<longleftrightarrow>
     (\<forall>h q V. same_graph h0 h \<longrightarrow> q < length h0 \<longrightarrow> set V \<subseteq> {..<length h0} \<longrightarrow>
        k \<le> card (set V) \<longrightarrow> (\<exists>r. call h q w V = Some r \<and> matches_post h0 q w V r))"

definition fuel_needed :: "jsstring \<Rightarrow> addr list \<Rightarrow> nat \<Rightarrow> nat" where
  "fuel_needed w V N = length w * Suc N + (N - card (set V)) + 1"

subsection \<open>Labels of the subset construction\<close>





section \<open>Results on dfa-minimization.js\<close>

text \<open>
  C9. On the module's own table \<open>{1:{a:2,b:3}, 2:{}, 3:{}}\<close>, with accepting ids \<open>{2,3}\<close> and
  alphabet \<open>{a,b}\<close>, \<open>minimize\<close> returns a table of exactly two states: class 1 (the
  non-accepting id 1) goes on both \<open>a\<close> and \<open>b\<close> to class 2, and ids 2 and 3 end in one
  and the same class object, which is not the class of id 1.
\<close>

theorem minimize_table0:
  "(case minimize table0 init_pstate of
      Some (Inr minimized, s) \<Rightarrow>
        minimized = [(1, [(js ''a'', Some 2), (js ''b'', Some 2)]), (2, [])] \<and>
        length minimized = 2 \<and>
        currentTransitionMap s 2 = currentTransitionMap s 3 \<and>
        currentTransitionMap s 1 \<noteq> currentTransitionMap s 2 \<and>
        map_option (elems s) (currentTransitionMap s 2) = Some [2, 3]
    | _ \<Rightarrow> False)"
  by code_simp

text \<open>
  C3 (the code departs from the claim). \<open>goToSameSet\<close> compares
  \<open>currentTransitionMap[s][symbol]\<close>, a property of the class object of \<open>s\<close> itself, and
  never looks at the table. On \<open>table_split\<close> ids 1 and 4 start in the non-accepting
  class; on \<open>a\<close> id 1 goes to the accepting class and id 4 to the non-accepting one, yet
  the two are found equivalent, end in one class, and the result has two states.
\<close>

theorem areEquivalent_ignores_targets:
  "(case minimize table_split init_pstate of
      Some (Inr minimized, s) \<Rightarrow>
        minimized = [(1, [(js ''a'', Some 2)]), (2, [])] \<and>
        currentTransitionMap s 1 = currentTransitionMap s 4 \<and>
        currentTransitionMap s 2 \<noteq> currentTransitionMap s 4 \<and>
        areEquivalent s 4 1
    | _ \<Rightarrow> False)"
  by code_simp

subsection \<open>Classes never split; the result in closed form\<close>

lemma set_add_new: "x \<notin> set xs \<Longrightarrow> set_add xs x = xs @ [x]"
  by (simp add: set_add_def)

lemma set_set_add: "set (set_add xs x) = insert x (set xs)"
  by (auto simp: set_add_def)

lemma distinct_set_add: "distinct xs \<Longrightarrow> distinct (set_add xs x)"
  by (auto simp: set_add_def)

lemma foldl_set_add_props:
  "distinct acc \<Longrightarrow> distinct (foldl set_add acc xs) \<and> set (foldl set_add acc xs) = set acc \<union> set xs"
  by (induction xs arbitrary: acc) (auto simp: distinct_set_add set_set_add)

lemma distinct_new_Set: "distinct (new_Set xs)"
  and set_new_Set: "set (new_Set xs) = set xs"
  using foldl_set_add_props [of "[]" xs] by (simp_all add: new_Set_def)

lemma foldl_set_add_hd:
  "acc \<noteq> [] \<Longrightarrow> hd (foldl set_add acc xs) = hd acc"
  by (induction xs arbitrary: acc) (auto simp: set_add_def)

lemma hd_new_Set: "xs \<noteq> [] \<Longrightarrow> hd (new_Set xs) = hd xs"
  by (cases xs) (simp_all add: new_Set_def foldl_set_add_hd set_add_def)

lemma distinct_two:
  assumes "distinct ys" "set ys = {a, b}" "a \<noteq> b" "hd ys = a"
  shows "ys = [a, b]"
proof (cases ys)
  case Nil
  with assms show ?thesis by simp
next
  case (Cons y zs)
  with assms have y: "y = a" and z: "set zs = {b}" "distinct zs" by auto
  from z obtain z' zs' where zs: "zs = z' # zs'" by (cases zs) auto
  with z have "z' = b" by auto
  moreover from z zs have "set zs' \<subseteq> {b}" "b \<notin> set zs'" using \<open>z' = b\<close> by auto
  then have "zs' = []" by (cases zs') auto
  ultimately show ?thesis using Cons y zs by simp
qed

lemma new_Set_two:
  assumes "xs \<noteq> []" "set xs = {a, b}" "a \<noteq> b" "hd xs = a"
  shows "new_Set xs = [a, b]"
  using assms by (intro distinct_two) (simp_all add: distinct_new_Set set_new_Set hd_new_Set)

lemma new_Set_one:
  assumes "xs \<noteq> []" "set xs = {a}"
  shows "new_Set xs = [a]"
proof -
  have d: "distinct (new_Set xs)" and s: "set (new_Set xs) = {a}"
    using assms by (simp_all add: distinct_new_Set set_new_Set)
  from s obtain y ys where ys: "new_Set xs = y # ys" by (cases "new_Set xs") auto
  with s d have "y = a" "set ys \<subseteq> {a}" "a \<notin> set ys" by auto
  then have "ys = []" by (cases ys) auto
  with ys \<open>y = a\<close> show ?thesis by simp
qed

lemma map_of_put_index: "map_of (put_index kvs k v) = (map_of kvs)(k \<mapsto> v)"
  by (induction kvs) (auto simp: fun_eq_iff)

lemma set_put_index_keys: "fst ` set (put_index kvs k v) = insert k (fst ` set kvs)"
proof (induction kvs)
  case Nil
  show ?case by simp
next
  case (Cons a kvs)
  obtain k' v' where a: "a = (k', v')" by (cases a)
  show ?case by (simp add: a Cons.IH insert_commute)
qed

lemma set_put_index_vals: "snd ` set (put_index kvs k v) \<subseteq> insert v (snd ` set kvs)"
proof (induction kvs)
  case Nil
  show ?case by simp
next
  case (Cons a kvs)
  obtain k' v' where a: "a = (k', v')" by (cases a)
  from Cons.IH show ?case by (simp add: a) blast
qed

lemma sorted_put_index:
  "sorted_wrt (<) (map fst kvs) \<Longrightarrow> sorted_wrt (<) (map fst (put_index kvs k v))"
proof (induction kvs)
  case Nil
  then show ?case by simp
next
  case (Cons a kvs)
  obtain k' v' where a: "a = (k', v')" by (cases a)
  have "\<forall>x \<in> fst ` set (put_index kvs k v). k < k' \<or> k = k' \<or> k' < x"
    using Cons.prems a unfolding set_put_index_keys by auto
  with Cons a show ?case by auto
qed

lemma put_index_nonempty: "put_index kvs k v \<noteq> []"
  by (cases kvs) (auto split: if_splits)

lemma obj_put_index: "k < 4294967295 \<Longrightarrow> obj_put kvs k v = put_index kvs k v"
  by (simp add: obj_put_def)

lemma areEquivalent_iff:
  "areEquivalent st s1 s2 \<longleftrightarrow>
     currentTransitionMap st s1 \<noteq> None \<and> currentTransitionMap st s2 \<noteq> None"
  by (auto simp: areEquivalent_def alphabet_def goToSameSet_def set_property_def js_def
           split: option.splits)

lemma set_put_index_fresh:
  "k \<notin> fst ` set kvs \<Longrightarrow> set (put_index kvs k v) = insert (k, v) (set kvs)"
proof (induction kvs)
  case Nil
  show ?case by simp
next
  case (Cons a kvs)
  obtain k' v' where a: "a = (k', v')" by (cases a)
  from Cons show ?case by (auto simp: a)
qed

lemma find_handled_hd:
  assumes "hs \<noteq> []" "\<forall>p \<in> set hs. snd p = r \<and> currentTransitionMap st (fst p) \<noteq> None"
    "currentTransitionMap st state \<noteq> None"
  shows "find_handled st state hs = Some r"
proof (cases hs)
  case Nil
  with assms show ?thesis by simp
next
  case (Cons p ps)
  obtain h v where p: "p = (h, v)" by (cases p)
  with Cons assms show ?thesis by (simp add: areEquivalent_iff)
qed

lemma foldl_rest_step:
  assumes "hs \<noteq> []" "sorted_wrt (<) (map fst hs)" "set hs = (\<lambda>x. (x, r)) ` set done"
    "sets st r = done" "distinct (done @ rest)"
    "\<forall>x \<in> set done \<union> set rest. currentTransitionMap st x \<noteq> None"
    "\<forall>x \<in> set rest. x < 4294967295"
  shows "\<exists>hs'. foldl rest_step (hs, st) rest = (hs', st\<lparr>sets := (sets st)(r := done @ rest)\<rparr>) \<and>
           hs' \<noteq> [] \<and> sorted_wrt (<) (map fst hs') \<and>
           set hs' = (\<lambda>x. (x, r)) ` (set done \<union> set rest)"
  using assms
proof (induction rest arbitrary: hs st "done")
  case Nil
  have "(sets st)(r := done) = sets st" using Nil.prems(4) by auto
  with Nil show ?case by simp
next
  case (Cons x xs)
  have fh: "find_handled st x hs = Some r"
    using Cons.prems by (intro find_handled_hd) auto
  have xnew: "x \<notin> set done" using Cons.prems(5) by auto
  have xkey: "x \<notin> fst ` set hs" using Cons.prems(3) xnew by auto
  let ?st1 = "st\<lparr>sets := (sets st)(r := done @ [x])\<rparr>"
  let ?hs1 = "put_index hs x r"
  have xb: "x < 4294967295" using Cons.prems(7) by simp
  have step: "rest_step (hs, st) x = (?hs1, ?st1)"
    using fh xnew Cons.prems(4) by (simp add: rest_step_def set_add_new obj_put_index [OF xb])
  have "\<exists>hs'. foldl rest_step (?hs1, ?st1) xs = (hs', ?st1\<lparr>sets := (sets ?st1)(r := (done @ [x]) @ xs)\<rparr>) \<and>
           hs' \<noteq> [] \<and> sorted_wrt (<) (map fst hs') \<and>
           set hs' = (\<lambda>x. (x, r)) ` (set (done @ [x]) \<union> set xs)"
  proof (rule Cons.IH)
    show "?hs1 \<noteq> []" by (rule put_index_nonempty)
    show "sorted_wrt (<) (map fst ?hs1)" using Cons.prems(2) by (rule sorted_put_index)
    show "set ?hs1 = (\<lambda>x. (x, r)) ` set (done @ [x])"
      using xkey Cons.prems(3) by (simp add: set_put_index_fresh)
    show "\<forall>y \<in> set xs. y < 4294967295" using Cons.prems(7) by simp
    show "sets ?st1 r = done @ [x]" by simp
    show "distinct ((done @ [x]) @ xs)" using Cons.prems(5) by simp
    show "\<forall>y \<in> set (done @ [x]) \<union> set xs. currentTransitionMap ?st1 y \<noteq> None"
      using Cons.prems(6) by simp
  qed
  then obtain hs' where h: "foldl rest_step (?hs1, ?st1) xs =
        (hs', ?st1\<lparr>sets := (sets ?st1)(r := (done @ [x]) @ xs)\<rparr>)"
      "hs' \<noteq> []" "sorted_wrt (<) (map fst hs')"
      "set hs' = (\<lambda>x. (x, r)) ` (set (done @ [x]) \<union> set xs)"
    by blast
  have eq: "?st1\<lparr>sets := (sets ?st1)(r := (done @ [x]) @ xs)\<rparr> =
        st\<lparr>sets := (sets st)(r := done @ x # xs)\<rparr>"
    by simp
  have "foldl rest_step (hs, st) (x # xs) = (hs', st\<lparr>sets := (sets st)(r := done @ x # xs)\<rparr>)"
    using step h(1) unfolding eq by simp
  moreover have "set hs' = (\<lambda>x. (x, r)) ` (set done \<union> set (x # xs))"
    using h(4) by auto
  ultimately show ?case using h(2,3) by blast
qed

lemma handle_class_one_set:
  assumes "elems st c = f # rest" "distinct (f # rest)"
    "\<forall>x \<in> set (f # rest). currentTransitionMap st x \<noteq> None"
    "\<forall>x \<in> set (f # rest). x < 4294967295"
  shows "\<exists>hs. handle_class st c =
             Inr (hs, st\<lparr>sets := (sets st)(fresh st := f # rest), fresh := Suc (fresh st)\<rparr>) \<and>
           hs \<noteq> [] \<and> sorted_wrt (<) (map fst hs) \<and>
           set hs = (\<lambda>x. (x, fresh st)) ` set (f # rest)"
proof -
  let ?r = "fresh st"
  let ?st0 = "st\<lparr>sets := (sets st)(?r := [f]), fresh := Suc ?r\<rparr>"
  have "\<exists>hs'. foldl rest_step ([(f, ?r)], ?st0) rest =
           (hs', ?st0\<lparr>sets := (sets ?st0)(?r := [f] @ rest)\<rparr>) \<and>
           hs' \<noteq> [] \<and> sorted_wrt (<) (map fst hs') \<and>
           set hs' = (\<lambda>x. (x, ?r)) ` (set [f] \<union> set rest)"
    using assms by (intro foldl_rest_step) auto
  then obtain hs' where hs': "foldl rest_step ([(f, ?r)], ?st0) rest =
           (hs', ?st0\<lparr>sets := (sets ?st0)(?r := [f] @ rest)\<rparr>)"
    "hs' \<noteq> []" "sorted_wrt (<) (map fst hs')" "set hs' = (\<lambda>x. (x, ?r)) ` (set [f] \<union> set rest)"
    by blast
  have "handle_class st c = Inr (hs', st\<lparr>sets := (sets st)(?r := f # rest), fresh := Suc ?r\<rparr>)"
    using assms(1) hs'(1)
    by (simp add: handle_class_def alloc_set_def new_Set_def set_add_def)
  with hs' show ?thesis by auto
qed

lemma object_assign_Nil: "object_assign tgt [] = tgt"
  by (simp add: object_assign_def)

lemma object_assign_Cons:
  "k < 4294967295 \<Longrightarrow>
   object_assign tgt ((k, v) # src) = object_assign (put_index tgt k v) src"
  by (simp add: object_assign_def obj_put_index)

lemma object_assign_sorted:
  "sorted_wrt (<) (map fst tgt) \<Longrightarrow> \<forall>p \<in> set src. fst p < 4294967295 \<Longrightarrow>
   sorted_wrt (<) (map fst (object_assign tgt src))"
proof (induction src arbitrary: tgt)
  case Nil
  then show ?case by (simp add: object_assign_Nil)
next
  case (Cons p src)
  obtain k v where p: "p = (k, v)" by (cases p)
  have kb: "k < 4294967295" and rest: "\<forall>p \<in> set src. fst p < 4294967295"
    using Cons.prems(2) p by auto
  have "sorted_wrt (<) (map fst (put_index tgt k v))"
    using Cons.prems(1) by (rule sorted_put_index)
  then show ?case unfolding p object_assign_Cons [OF kb] using rest by (rule Cons.IH)
qed

lemma object_assign_map_of:
  assumes "\<forall>p \<in> set src. snd p = r" "\<forall>p \<in> set src. fst p < 4294967295"
  shows "map_of (object_assign tgt src) = (\<lambda>k. if k \<in> fst ` set src then Some r else map_of tgt k)"
  using assms
proof (induction src arbitrary: tgt)
  case Nil
  then show ?case by (simp add: object_assign_Nil)
next
  case (Cons p src)
  obtain k v where p: "p = (k, v)" by (cases p)
  with Cons.prems have v: "v = r" and rest: "\<forall>p \<in> set src. snd p = r"
    and kb: "k < 4294967295" and restb: "\<forall>p \<in> set src. fst p < 4294967295" by auto
  show ?case unfolding p object_assign_Cons [OF kb] Cons.IH [OF rest restb]
    by (auto simp: map_of_put_index v fun_eq_iff)
qed

lemma sorted_wrt_less_distinct: "sorted_wrt (<) (xs :: nat list) \<Longrightarrow> distinct xs"
  by (induction xs) auto

lemma sorted_alist_set:
  assumes "sorted_wrt (<) (map fst (tm :: (nat \<times> 'v) list))"
  shows "set tm = {(k, v). map_of tm k = Some v}"
proof -
  have "distinct (map fst tm)" using assms by (rule sorted_wrt_less_distinct)
  then show ?thesis by auto
qed

lemma sorted_alist_hd:
  assumes "sorted_wrt (<) (map fst (tm :: (nat \<times> 'v) list))" "tm \<noteq> []"
  shows "fst (hd tm) = Min (fst ` set tm)" "map_of tm (fst (hd tm)) = Some (snd (hd tm))"
proof -
  obtain p ps where tm: "tm = p # ps" using assms(2) by (cases tm) auto
  have "\<forall>x \<in> fst ` set ps. fst p < x" using assms(1) tm by auto
  then have "Min (insert (fst p) (fst ` set ps)) = fst p"
    by (intro Min_eqI) (auto simp: less_imp_le)
  then show "fst (hd tm) = Min (fst ` set tm)" using tm by simp
  show "map_of tm (fst (hd tm)) = Some (snd (hd tm))" using tm by (cases p) simp
qed

lemma round_one:
  assumes "elems st c = l" "l \<noteq> []" "distinct l"
    "\<forall>x \<in> set l. currentTransitionMap st x \<noteq> None"
    "\<forall>x \<in> set l. x < 4294967295"
  shows "\<exists>tm. handle_classes [c] [] st =
             Inr (tm, st\<lparr>sets := (sets st)(fresh st := l), fresh := Suc (fresh st)\<rparr>) \<and>
           map_of tm = (\<lambda>k. if k \<in> set l then Some (fresh st) else None) \<and>
           new_Set (map snd tm) = [fresh st]"
proof -
  obtain f rest where l: "l = f # rest" using assms(2) by (cases l) auto
  have "\<exists>hs. handle_class st c =
        Inr (hs, st\<lparr>sets := (sets st)(fresh st := f # rest), fresh := Suc (fresh st)\<rparr>) \<and>
      hs \<noteq> [] \<and> sorted_wrt (<) (map fst hs) \<and> set hs = (\<lambda>x. (x, fresh st)) ` set (f # rest)"
    by (rule handle_class_one_set) (use assms l in simp_all)
  then obtain hs where hs: "handle_class st c =
        Inr (hs, st\<lparr>sets := (sets st)(fresh st := f # rest), fresh := Suc (fresh st)\<rparr>)"
      "hs \<noteq> []" "sorted_wrt (<) (map fst hs)" "set hs = (\<lambda>x. (x, fresh st)) ` set (f # rest)"
    by blast
  let ?tm = "object_assign [] hs"
  have keys: "fst ` set hs = set l" using hs(4) l by (auto simp: image_image)
  have vals: "\<forall>p \<in> set hs. snd p = fresh st" using hs(4) by auto
  have kb: "\<forall>p \<in> set hs. fst p < 4294967295" using keys assms(5) by auto
  have m: "map_of ?tm = (\<lambda>k. if k \<in> set l then Some (fresh st) else None)"
    unfolding object_assign_map_of [OF vals kb] keys by (simp add: fun_eq_iff)
  have srt: "sorted_wrt (<) (map fst ?tm)" using kb by (intro object_assign_sorted) simp_all
  have st: "set ?tm = {(k, v). k \<in> set l \<and> v = fresh st}"
    unfolding sorted_alist_set [OF srt] m by (auto split: if_splits)
  have fin: "(f, fresh st) \<in> set ?tm" unfolding st using l by simp
  have "snd ` set ?tm = {fresh st}"
  proof
    show "snd ` set ?tm \<subseteq> {fresh st}" unfolding st by auto
    show "{fresh st} \<subseteq> snd ` set ?tm" using fin by force
  qed
  then have "set (map snd ?tm) = {fresh st}" by simp
  moreover have "map snd ?tm \<noteq> []" using fin by auto
  ultimately have n: "new_Set (map snd ?tm) = [fresh st]" by (intro new_Set_one)
  have "handle_classes [c] [] st =
      Inr (?tm, st\<lparr>sets := (sets st)(fresh st := l), fresh := Suc (fresh st)\<rparr>)"
    using hs(1) l by simp
  with m n show ?thesis by blast
qed

lemma round_two:
  assumes "elems st c1 = l1" "elems st c2 = l2" "c2 \<noteq> Obj (fresh st)"
    "l1 \<noteq> []" "l2 \<noteq> []" "distinct l1" "distinct l2" "set l1 \<inter> set l2 = {}"
    "\<forall>x \<in> set l1 \<union> set l2. currentTransitionMap st x \<noteq> None"
    "\<forall>x \<in> set l1 \<union> set l2. x < 4294967295"
  shows "\<exists>tm. handle_classes [c1, c2] [] st =
             Inr (tm, st\<lparr>sets := (sets st)(fresh st := l1, Suc (fresh st) := l2),
                        fresh := Suc (Suc (fresh st))\<rparr>) \<and>
           map_of tm = (\<lambda>k. if k \<in> set l1 then Some (fresh st)
                            else if k \<in> set l2 then Some (Suc (fresh st)) else None) \<and>
           new_Set (map snd tm) =
             (if Min (set l1 \<union> set l2) \<in> set l1 then [fresh st, Suc (fresh st)]
              else [Suc (fresh st), fresh st])"
proof -
  let ?r1 = "fresh st" and ?r2 = "Suc (fresh st)"
  obtain f1 rest1 where l1: "l1 = f1 # rest1" using assms(4) by (cases l1) auto
  obtain f2 rest2 where l2: "l2 = f2 # rest2" using assms(5) by (cases l2) auto
  let ?st1 = "st\<lparr>sets := (sets st)(?r1 := l1), fresh := ?r2\<rparr>"
  have "\<exists>hs. handle_class st c1 =
        Inr (hs, st\<lparr>sets := (sets st)(fresh st := f1 # rest1), fresh := Suc (fresh st)\<rparr>) \<and>
      hs \<noteq> [] \<and> sorted_wrt (<) (map fst hs) \<and> set hs = (\<lambda>x. (x, fresh st)) ` set (f1 # rest1)"
    by (rule handle_class_one_set) (use assms l1 in simp_all)
  then obtain hs1 where hs1: "handle_class st c1 = Inr (hs1, ?st1)"
      "sorted_wrt (<) (map fst hs1)" "set hs1 = (\<lambda>x. (x, ?r1)) ` set l1"
    unfolding l1 by blast
  have e2: "elems ?st1 c2 = l2" using assms(2,3) by (cases c2) (auto simp: elems_def)
  let ?st2 = "?st1\<lparr>sets := (sets ?st1)(fresh ?st1 := l2), fresh := Suc (fresh ?st1)\<rparr>"
  have "\<exists>hs. handle_class ?st1 c2 =
        Inr (hs, ?st1\<lparr>sets := (sets ?st1)(fresh ?st1 := f2 # rest2), fresh := Suc (fresh ?st1)\<rparr>) \<and>
      hs \<noteq> [] \<and> sorted_wrt (<) (map fst hs) \<and> set hs = (\<lambda>x. (x, fresh ?st1)) ` set (f2 # rest2)"
    by (rule handle_class_one_set) (use assms e2 l2 in simp_all)
  then obtain hs2 where hs2: "handle_class ?st1 c2 = Inr (hs2, ?st2)"
      "sorted_wrt (<) (map fst hs2)" "set hs2 = (\<lambda>x. (x, fresh ?st1)) ` set l2"
    unfolding l2 by blast
  let ?tm = "object_assign (object_assign [] hs1) hs2"
  have k1: "fst ` set hs1 = set l1" using hs1(3) by (auto simp: image_image)
  have k2: "fst ` set hs2 = set l2" using hs2(3) by (auto simp: image_image)
  have v1: "\<forall>p \<in> set hs1. snd p = ?r1" using hs1(3) by auto
  have v2: "\<forall>p \<in> set hs2. snd p = ?r2" using hs2(3) by auto
  have b1: "\<forall>p \<in> set hs1. fst p < 4294967295" using k1 assms(10) by auto
  have b2: "\<forall>p \<in> set hs2. fst p < 4294967295" using k2 assms(10) by auto
  have m: "map_of ?tm = (\<lambda>k. if k \<in> set l1 then Some ?r1
                            else if k \<in> set l2 then Some ?r2 else None)"
    unfolding object_assign_map_of [OF v2 b2] object_assign_map_of [OF v1 b1] k1 k2
    using assms(8) by (auto simp: fun_eq_iff)
  have srt: "sorted_wrt (<) (map fst ?tm)"
    using b1 b2 by (intro object_assign_sorted) simp_all
  have st: "set ?tm = {(k, v). (k \<in> set l1 \<and> v = ?r1) \<or> (k \<in> set l2 \<and> v = ?r2)}"
    unfolding sorted_alist_set [OF srt] m using assms(8) by (auto split: if_splits)
  have f1in: "(f1, ?r1) \<in> set ?tm" and f2in: "(f2, ?r2) \<in> set ?tm"
    unfolding st using l1 l2 by auto
  have ne: "?tm \<noteq> []" using f1in by auto
  have "snd ` set ?tm = {?r1, ?r2}"
  proof
    show "snd ` set ?tm \<subseteq> {?r1, ?r2}" unfolding st by auto
    have "?r1 \<in> snd ` set ?tm" using f1in by force
    moreover have "?r2 \<in> snd ` set ?tm" using f2in by force
    ultimately show "{?r1, ?r2} \<subseteq> snd ` set ?tm" by simp
  qed
  then have vals: "set (map snd ?tm) = {?r1, ?r2}" by simp
  have keys: "fst ` set ?tm = set l1 \<union> set l2" unfolding st by force
  have hdk: "fst (hd ?tm) = Min (set l1 \<union> set l2)"
    using sorted_alist_hd(1) [OF srt ne] keys by simp
  have hdv: "map_of ?tm (fst (hd ?tm)) = Some (snd (hd ?tm))"
    by (rule sorted_alist_hd(2) [OF srt ne])
  have hd_snd: "hd (map snd ?tm) = snd (hd ?tm)" using ne by (simp add: hd_map)
  have n: "new_Set (map snd ?tm) =
             (if Min (set l1 \<union> set l2) \<in> set l1 then [?r1, ?r2] else [?r2, ?r1])"
  proof (cases "Min (set l1 \<union> set l2) \<in> set l1")
    case True
    then have "snd (hd ?tm) = ?r1" using hdv unfolding m hdk by simp
    then have "new_Set (map snd ?tm) = [?r1, ?r2]"
      using ne vals hd_snd by (intro new_Set_two) auto
    with True show ?thesis by simp
  next
    case False
    have "Min (set l1 \<union> set l2) \<in> set l1 \<union> set l2"
      by (rule Min_in) (use l1 in auto)
    with False have "Min (set l1 \<union> set l2) \<in> set l2" by auto
    with False have "snd (hd ?tm) = ?r2" using hdv unfolding m hdk by simp
    then have "new_Set (map snd ?tm) = [?r2, ?r1]"
      using ne vals hd_snd by (intro new_Set_two) auto
    with False show ?thesis by simp
  qed
  have "handle_classes [c1, c2] [] st = Inr (?tm, ?st2)"
    using hs1(1) hs2(1) by simp
  moreover have "?st2 = st\<lparr>sets := (sets st)(?r1 := l1, ?r2 := l2), fresh := Suc ?r2\<rparr>"
    by simp
  ultimately show ?thesis using m n by auto
qed

lemma table_row_index: "k < 4294967295 \<Longrightarrow> table_row t k = map_of t k"
  by (simp add: table_row_def)

lemma build_row_alphabet:
  assumes "elems st c = f # rest" "table_row t f = Some r"
  shows "build_row t st remaped c alphabet [] =
           Inr (row_entries r (\<lambda>tr. remaped_get remaped (currentTransitionMap st tr)))"
  using assms by (simp add: alphabet_def row_entries_def split: option.splits)

lemma remaped_of_one: "remaped_of [c] = [(c, 1)]"
  by (simp add: remaped_of_def)

lemma remaped_of_two: "remaped_of [c1, c2] = [(c1, 1), (c2, 2)]"
  by (simp add: remaped_of_def upt_rec)

lemma build_stable1:
  assumes "stable1 st cur l" "l \<noteq> []" "map_of t (hd l) \<noteq> None"
  shows "build_minimized t cur st = Inr (closed1 t l)"
proof -
  from assms(1) obtain a where a: "cur = [Obj a]" "sets st a = l"
      "currentTransitionMap st = (\<lambda>k. if k \<in> set l then Some (Obj a) else None)"
    unfolding stable1_def by blast
  obtain f rest where l: "l = f # rest" using assms(2) by (cases l) auto
  obtain r where r: "map_of t f = Some r" using assms(3) l by auto
  have "f < 4294967295" using assms(1) l unfolding stable1_def by simp
  then have tr: "table_row t f = Some r" using r by (simp add: table_row_index)
  have e: "elems st (Obj a) = f # rest" using a(2) l by (simp add: elems_def)
  have i: "(\<lambda>tr. remaped_get [(Obj a, 1)] (currentTransitionMap st tr)) = idx1 l"
    unfolding a(3) by (auto simp: fun_eq_iff remaped_get_def idx1_def)
  have b: "build_row t st [(Obj a, 1)] (Obj a) alphabet [] = Inr (row_entries r (idx1 l))"
    using build_row_alphabet [OF e tr, of "[(Obj a, 1)]"] unfolding i .
  show ?thesis
    unfolding build_minimized_def a(1) remaped_of_one
    using b r by (simp add: closed1_def l)
qed

lemma build_stable2:
  assumes "stable2 st cur l1 l2" "l1 \<noteq> []" "l2 \<noteq> []"
    "map_of t (hd l1) \<noteq> None" "map_of t (hd l2) \<noteq> None"
  shows "build_minimized t cur st = Inr (closed2 t l1 l2)"
proof -
  from assms(1) obtain a b where a: "cur = [Obj a, Obj b]" "a \<noteq> b" "sets st a = l1" "sets st b = l2"
      "currentTransitionMap st =
         (\<lambda>k. if k \<in> set l1 then Some (Obj a) else if k \<in> set l2 then Some (Obj b) else None)"
    unfolding stable2_def by blast
  obtain f1 rest1 where l1: "l1 = f1 # rest1" using assms(2) by (cases l1) auto
  obtain f2 rest2 where l2: "l2 = f2 # rest2" using assms(3) by (cases l2) auto
  obtain r1 where r1: "map_of t f1 = Some r1" using assms(4) l1 by auto
  obtain r2 where r2: "map_of t f2 = Some r2" using assms(5) l2 by auto
  have "f1 < 4294967295" "f2 < 4294967295" using assms(1) l1 l2 unfolding stable2_def by simp_all
  then have tr1: "table_row t f1 = Some r1" and tr2: "table_row t f2 = Some r2"
    using r1 r2 by (simp_all add: table_row_index)
  have e1: "elems st (Obj a) = f1 # rest1" using a(3) l1 by (simp add: elems_def)
  have e2: "elems st (Obj b) = f2 # rest2" using a(4) l2 by (simp add: elems_def)
  have i: "(\<lambda>tr. remaped_get [(Obj a, 1), (Obj b, 2)] (currentTransitionMap st tr)) = idx2 l1 l2"
    unfolding a(5) using a(2) by (auto simp: fun_eq_iff remaped_get_def idx2_def)
  have b1: "build_row t st [(Obj a, 1), (Obj b, 2)] (Obj a) alphabet [] = Inr (row_entries r1 (idx2 l1 l2))"
    using build_row_alphabet [OF e1 tr1, of "[(Obj a, 1), (Obj b, 2)]"] unfolding i .
  have b2: "build_row t st [(Obj a, 1), (Obj b, 2)] (Obj b) alphabet [] = Inr (row_entries r2 (idx2 l1 l2))"
    using build_row_alphabet [OF e2 tr2, of "[(Obj a, 1), (Obj b, 2)]"] unfolding i .
  show ?thesis
    unfolding build_minimized_def a(1) remaped_of_two
    using b1 b2 r1 r2 by (simp add: closed2_def l1 l2)
qed

lemma stable2_round:
  assumes s: "stable2 st cur l1 l2"
    and l: "l1 \<noteq> []" "l2 \<noteq> []" "distinct l1" "distinct l2" "set l1 \<inter> set l2 = {}"
      "Min (set l1 \<union> set l2) \<in> set l1"
  shows "\<exists>tm st'. handle_classes cur [] st = Inr (tm, st') \<and>
           stable2 (st'\<lparr>currentTransitionMap := map_option Obj \<circ> map_of tm\<rparr>)
                   (map Obj (new_Set (map snd tm))) l1 l2 \<and>
           sameRow (st'\<lparr>currentTransitionMap := map_option Obj \<circ> map_of tm\<rparr>)
                   (map Obj (new_Set (map snd tm))) (Some cur)"
proof -
  from s obtain a b where a: "cur = [Obj a, Obj b]" "a \<noteq> b" "a < fresh st" "b < fresh st"
      "sets st a = l1" "sets st b = l2"
      "currentTransitionMap st =
         (\<lambda>k. if k \<in> set l1 then Some (Obj a) else if k \<in> set l2 then Some (Obj b) else None)"
    unfolding stable2_def by blast
  have e1: "elems st (Obj a) = l1" and e2: "elems st (Obj b) = l2"
    using a(5,6) by (simp_all add: elems_def)
  have nb: "Obj b \<noteq> Obj (fresh st)" using a(4) by simp
  have d: "\<forall>x\<in>set l1 \<union> set l2. currentTransitionMap st x \<noteq> None"
    unfolding a(7) by auto
  have bd: "\<forall>x\<in>set l1 \<union> set l2. x < 4294967295" using s unfolding stable2_def by blast
  from round_two [OF e1 e2 nb l(1) l(2) l(3) l(4) l(5) d bd]
  obtain tm where tm:
    "handle_classes [Obj a, Obj b] [] st =
       Inr (tm, st\<lparr>sets := (sets st)(fresh st := l1, Suc (fresh st) := l2), fresh := Suc (Suc (fresh st))\<rparr>)"
    "map_of tm = (\<lambda>k. if k \<in> set l1 then Some (fresh st) else if k \<in> set l2 then Some (Suc (fresh st)) else None)"
    "new_Set (map snd tm) = [fresh st, Suc (fresh st)]"
    using l(6) by auto
  let ?st' = "st\<lparr>sets := (sets st)(fresh st := l1, Suc (fresh st) := l2), fresh := Suc (Suc (fresh st))\<rparr>"
  let ?st2 = "?st'\<lparr>currentTransitionMap := map_option Obj \<circ> map_of tm\<rparr>"
  have st2: "stable2 ?st2 (map Obj (new_Set (map snd tm))) l1 l2"
    unfolding stable2_def tm(3)
    by (rule conjI [OF _ bd], rule exI [of _ "fresh st"], rule exI [of _ "Suc (fresh st)"])
       (auto simp: tm(2) fun_eq_iff)
  have sr: "sameRow ?st2 (map Obj (new_Set (map snd tm))) (Some cur)"
    unfolding tm(3) a(1) using a(3,4,5,6) by (simp add: sameRow_def elems_def)
  show ?thesis using tm(1) st2 sr unfolding a(1) by blast
qed

lemma stable1_round:
  assumes s: "stable1 st cur l"
    and l: "l \<noteq> []" "distinct l"
  shows "\<exists>tm st'. handle_classes cur [] st = Inr (tm, st') \<and>
           stable1 (st'\<lparr>currentTransitionMap := map_option Obj \<circ> map_of tm\<rparr>)
                   (map Obj (new_Set (map snd tm))) l \<and>
           sameRow (st'\<lparr>currentTransitionMap := map_option Obj \<circ> map_of tm\<rparr>)
                   (map Obj (new_Set (map snd tm))) (Some cur)"
proof -
  from s obtain a where a: "cur = [Obj a]" "a < fresh st" "sets st a = l"
      "currentTransitionMap st = (\<lambda>k. if k \<in> set l then Some (Obj a) else None)"
    unfolding stable1_def by blast
  have e1: "elems st (Obj a) = l" using a(3) by (simp add: elems_def)
  have d: "\<forall>x\<in>set l. currentTransitionMap st x \<noteq> None"
    unfolding a(4) by auto
  have bd: "\<forall>x\<in>set l. x < 4294967295" using s unfolding stable1_def by blast
  from round_one [OF e1 l(1) l(2) d bd]
  obtain tm where tm:
    "handle_classes [Obj a] [] st = Inr (tm, st\<lparr>sets := (sets st)(fresh st := l), fresh := Suc (fresh st)\<rparr>)"
    "map_of tm = (\<lambda>k. if k \<in> set l then Some (fresh st) else None)"
    "new_Set (map snd tm) = [fresh st]"
    by auto
  let ?st' = "st\<lparr>sets := (sets st)(fresh st := l), fresh := Suc (fresh st)\<rparr>"
  let ?st2 = "?st'\<lparr>currentTransitionMap := map_option Obj \<circ> map_of tm\<rparr>"
  have st2: "stable1 ?st2 (map Obj (new_Set (map snd tm))) l"
    unfolding stable1_def tm(3)
    by (rule conjI [OF _ bd], rule exI [of _ "fresh st"]) (auto simp: tm(2) fun_eq_iff)
  have sr: "sameRow ?st2 (map Obj (new_Set (map snd tm))) (Some cur)"
    unfolding tm(3) a(1) using a(2,3) by (simp add: sameRow_def elems_def)
  show ?thesis using tm(1) st2 sr unfolding a(1) by blast
qed

lemma stable2_defined:
  "stable2 st cur l1 l2 \<Longrightarrow> k \<in> set l1 \<union> set l2 \<Longrightarrow> currentTransitionMap st k \<noteq> None"
  unfolding stable2_def by auto

lemma stable1_defined:
  "stable1 st cur l \<Longrightarrow> k \<in> set l \<Longrightarrow> currentTransitionMap st k \<noteq> None"
  unfolding stable1_def by auto

lemma refine_stable2:
  assumes s: "stable2 st cur l1 l2"
    and l: "l1 \<noteq> []" "l2 \<noteq> []" "distinct l1" "distinct l2" "set l1 \<inter> set l2 = {}"
      "Min (set l1 \<union> set l2) \<in> set l1"
    and t: "map_of t (hd l1) \<noteq> None" "map_of t (hd l2) \<noteq> None"
  shows "\<exists>st'. refine t cur prev st = Some (Inr (closed2 t l1 l2), st') \<and>
               (\<forall>k\<in>set l1 \<union> set l2. currentTransitionMap st' k \<noteq> None)"
proof (cases "sameRow st cur prev")
  case True
  have "refine t cur prev st = Some (build_minimized t cur st, st)"
    by (subst refine.simps) (simp add: True)
  then show ?thesis
    using build_stable2 [OF s l(1) l(2) t] stable2_defined [OF s] by auto
next
  case False
  from stable2_round [OF s l] obtain tm st' where r:
    "handle_classes cur [] st = Inr (tm, st')"
    "stable2 (st'\<lparr>currentTransitionMap := map_option Obj \<circ> map_of tm\<rparr>)
             (map Obj (new_Set (map snd tm))) l1 l2"
    "sameRow (st'\<lparr>currentTransitionMap := map_option Obj \<circ> map_of tm\<rparr>)
             (map Obj (new_Set (map snd tm))) (Some cur)"
    by blast
  let ?st2 = "st'\<lparr>currentTransitionMap := map_option Obj \<circ> map_of tm\<rparr>"
  let ?cur2 = "map Obj (new_Set (map snd tm))"
  have 1: "refine t cur prev st = refine t ?cur2 (Some cur) ?st2"
    by (subst refine.simps) (simp add: False r(1))
  have 2: "refine t ?cur2 (Some cur) ?st2 = Some (build_minimized t ?cur2 ?st2, ?st2)"
    by (subst refine.simps) (simp add: r(3))
  show ?thesis
    unfolding 1 2
    using build_stable2 [OF r(2) l(1) l(2) t] stable2_defined [OF r(2)] by auto
qed

lemma refine_stable1:
  assumes s: "stable1 st cur l"
    and l: "l \<noteq> []" "distinct l"
    and t: "map_of t (hd l) \<noteq> None"
  shows "\<exists>st'. refine t cur prev st = Some (Inr (closed1 t l), st') \<and>
               (\<forall>k\<in>set l. currentTransitionMap st' k \<noteq> None)"
proof (cases "sameRow st cur prev")
  case True
  have "refine t cur prev st = Some (build_minimized t cur st, st)"
    by (subst refine.simps) (simp add: True)
  then show ?thesis
    using build_stable1 [OF s l(1) t] stable1_defined [OF s] by auto
next
  case False
  from stable1_round [OF s l] obtain tm st' where r:
    "handle_classes cur [] st = Inr (tm, st')"
    "stable1 (st'\<lparr>currentTransitionMap := map_option Obj \<circ> map_of tm\<rparr>)
             (map Obj (new_Set (map snd tm))) l"
    "sameRow (st'\<lparr>currentTransitionMap := map_option Obj \<circ> map_of tm\<rparr>)
             (map Obj (new_Set (map snd tm))) (Some cur)"
    by blast
  let ?st2 = "st'\<lparr>currentTransitionMap := map_option Obj \<circ> map_of tm\<rparr>"
  let ?cur2 = "map Obj (new_Set (map snd tm))"
  have 1: "refine t cur prev st = refine t ?cur2 (Some cur) ?st2"
    by (subst refine.simps) (simp add: False r(1))
  have 2: "refine t ?cur2 (Some cur) ?st2 = Some (build_minimized t ?cur2 ?st2, ?st2)"
    by (subst refine.simps) (simp add: r(3))
  show ?thesis
    unfolding 1 2
    using build_stable1 [OF r(2) l(1) t] stable1_defined [OF r(2)] by auto
qed

lemma js_Number_exact: "k < 4294967295 \<Longrightarrow> js_Number k = k"
  by (simp add: js_Number_def)

lemma round0_fold:
  assumes "distinct K" "set K \<inter> set (sets st n) = {}" "\<forall>k\<in>set K. k < 4294967295"
  shows "sets (foldl (round0_step n) st K) =
           (sets st)(n := sets st n @ filter (\<lambda>k. k \<notin> set accepting) K) \<and>
         fresh (foldl (round0_step n) st K) = fresh st \<and>
         currentTransitionMap (foldl (round0_step n) st K) =
           (\<lambda>k. if k \<in> set K then Some (if k \<in> set accepting then Accepting else Obj n)
                else currentTransitionMap st k)"
  using assms
proof (induction K arbitrary: st)
  case Nil
  show ?case by simp
next
  case (Cons x K)
  let ?s = "round0_step n st x"
  have x: "js_Number x = x" using Cons.prems(3) by (simp add: js_Number_exact)
  have s: "sets ?s n = (if x \<in> set accepting then sets st n else sets st n @ [x])"
    using Cons.prems by (simp add: round0_step_def set_add_def x)
  have d: "distinct K" "set K \<inter> set (sets ?s n) = {}" "\<forall>k\<in>set K. k < 4294967295"
    using Cons.prems by (auto simp: s)
  have f: "fresh ?s = fresh st" by (simp add: round0_step_def Let_def)
  have o: "sets ?s = (sets st)(n := (if x \<in> set accepting then sets st n else sets st n @ [x]))"
    using Cons.prems by (auto simp: round0_step_def set_add_def fun_eq_iff x)
  have c: "currentTransitionMap ?s =
      (currentTransitionMap st)(x \<mapsto> (if x \<in> set accepting then Accepting else Obj n))"
    by (simp add: round0_step_def x)
  from Cons.IH [OF d] show ?case
    using Cons.prems(1) by (auto simp: f c s o fun_eq_iff)
qed

lemma object_keys_set: "set (object_keys t) = fst ` set t"
  by (auto simp: object_keys_def Let_def set_new_Set)

lemma object_keys_distinct: "distinct (object_keys t)"
  by (auto simp: object_keys_def Let_def distinct_new_Set)

lemma map_of_defined: "k \<in> fst ` set t \<Longrightarrow> map_of t k \<noteq> None"
  by (simp add: map_of_eq_None_iff)

lemma hd_filter_in: "filter P xs \<noteq> [] \<Longrightarrow> hd (filter P xs) \<in> set xs"
  using hd_in_set [of "filter P xs"] by auto

lemma refine_step:
  assumes "\<not> sameRow st cur prev" "handle_classes cur [] st = Inr (tm, st')"
  shows "refine t cur prev st =
         refine t (map Obj (new_Set (map snd tm))) (Some cur)
           (st'\<lparr>currentTransitionMap := map_option Obj \<circ> map_of tm\<rparr>)"
  by (subst refine.simps) (simp add: assms)

lemma sameRow_None: "\<not> sameRow st cur None"
  by (simp add: sameRow_def)

lemma minimize_closed:
  assumes t2: "2 \<in> fst ` set t"
    and t3: "3 \<in> fst ` set t \<or> currentTransitionMap st 3 \<noteq> None"
    and tb: "\<forall>k\<in>fst ` set t. k < 4294967295"
  shows "\<exists>st'. minimize t st = Some (Inr (minimized_of t), st') \<and>
               (\<forall>k\<in>set accepting. currentTransitionMap st' k \<noteq> None)"
proof -
  let ?n = "fresh st"
  let ?st0 = "st\<lparr>sets := (sets st)(?n := []), fresh := Suc ?n\<rparr>"
  let ?K = "object_keys t"
  let ?na = "filter (\<lambda>k. k \<notin> set accepting) ?K"
  let ?st1 = "foldl (round0_step ?n) ?st0 ?K"
  have r0: "sets ?st1 = (sets ?st0)(?n := ?na)" "fresh ?st1 = Suc ?n"
    "currentTransitionMap ?st1 =
       (\<lambda>k. if k \<in> set ?K then Some (if k \<in> set accepting then Accepting else Obj ?n)
            else currentTransitionMap st k)"
    using round0_fold [of ?K ?st0 ?n] object_keys_distinct [of t] tb
    by (simp_all add: object_keys_set cong: if_cong)
  have bna: "\<forall>x\<in>set ?na. x < 4294967295" using tb by (auto simp: object_keys_set)
  have bac: "\<forall>x\<in>set accepting. x < 4294967295" by (simp add: accepting_def)
  have e1: "elems ?st1 (Obj ?n) = ?na" by (simp add: elems_def r0(1))
  have e2: "elems ?st1 Accepting = accepting" by (simp add: elems_def)
  have dna: "distinct ?na" using object_keys_distinct [of t] by simp
  have dac: "distinct accepting" "accepting \<noteq> []" "hd accepting = 2" "set accepting = {2, 3}"
    by (simp_all add: accepting_def)
  have dj: "set ?na \<inter> set accepting = {}" by auto
  have dfa: "\<forall>x\<in>set accepting. currentTransitionMap ?st1 x \<noteq> None"
    using t2 t3 by (auto simp: r0(3) dac(4) object_keys_set)
  have dfn: "\<forall>x\<in>set ?na. currentTransitionMap ?st1 x \<noteq> None"
    by (auto simp: r0(3))
  have tac: "map_of t (hd accepting) \<noteq> None"
    using t2 by (simp add: dac(3) map_of_defined)
  have m: "minimize t st =
      refine t (filter (\<lambda>c. length (elems ?st1 c) > 0) [Obj ?n, Accepting]) None ?st1"
    by (simp add: minimize_def alloc_set_def new_Set_def Let_def)
  show ?thesis
  proof (cases "?na = []")
    case True
    have cur: "filter (\<lambda>c. length (elems ?st1 c) > 0) [Obj ?n, Accepting] = [Accepting]"
      by (simp add: e1 e2 True dac(2))
    from round_one [OF e2 dac(2) dac(1) dfa bac]
    obtain tm where tm:
      "handle_classes [Accepting] [] ?st1 =
         Inr (tm, ?st1\<lparr>sets := (sets ?st1)(fresh ?st1 := accepting), fresh := Suc (fresh ?st1)\<rparr>)"
      "map_of tm = (\<lambda>k. if k \<in> set accepting then Some (fresh ?st1) else None)"
      "new_Set (map snd tm) = [fresh ?st1]"
      by blast
    let ?st2 = "?st1\<lparr>sets := (sets ?st1)(fresh ?st1 := accepting), fresh := Suc (fresh ?st1),
                     currentTransitionMap := map_option Obj \<circ> map_of tm\<rparr>"
    have 1: "refine t [Accepting] None ?st1 = refine t [Obj (fresh ?st1)] (Some [Accepting]) ?st2"
      using refine_step [OF sameRow_None tm(1), of t] by (simp add: tm(3))
    have s: "stable1 ?st2 [Obj (fresh ?st1)] accepting"
      unfolding stable1_def
      by (rule conjI [OF _ bac], rule exI [of _ "fresh ?st1"]) (auto simp: tm(2) fun_eq_iff)
    have mo: "minimized_of t = closed1 t accepting"
      using True by (simp add: minimized_of_def Let_def)
    from refine_stable1 [OF s dac(2) dac(1) tac, of "Some [Accepting]"]
    show ?thesis unfolding m cur 1 mo by blast
  next
    case False
    have cur: "filter (\<lambda>c. length (elems ?st1 c) > 0) [Obj ?n, Accepting] = [Obj ?n, Accepting]"
      using False by (simp add: e1 e2 dac(2))
    have tna: "map_of t (hd ?na) \<noteq> None"
      using hd_filter_in [OF False] by (simp add: map_of_defined object_keys_set)
    have na: "Accepting \<noteq> Obj (fresh ?st1)" by simp
    have dall: "\<forall>x\<in>set ?na \<union> set accepting. currentTransitionMap ?st1 x \<noteq> None"
      using dfa dfn by blast
    have ball: "\<forall>x\<in>set ?na \<union> set accepting. x < 4294967295"
      using bna bac by blast
    have ball': "\<forall>x\<in>set accepting \<union> set ?na. x < 4294967295"
      using bna bac by blast
    from round_two [OF e1 e2 na False dac(2) dna dac(1) dj dall ball]
    obtain tm where tm:
      "handle_classes [Obj ?n, Accepting] [] ?st1 =
         Inr (tm, ?st1\<lparr>sets := (sets ?st1)(fresh ?st1 := ?na, Suc (fresh ?st1) := accepting),
                       fresh := Suc (Suc (fresh ?st1))\<rparr>)"
      "map_of tm = (\<lambda>k. if k \<in> set ?na then Some (fresh ?st1)
                         else if k \<in> set accepting then Some (Suc (fresh ?st1)) else None)"
      "new_Set (map snd tm) =
         (if Min (set ?na \<union> set accepting) \<in> set ?na then [fresh ?st1, Suc (fresh ?st1)]
          else [Suc (fresh ?st1), fresh ?st1])"
      by blast
    let ?st2 = "?st1\<lparr>sets := (sets ?st1)(fresh ?st1 := ?na, Suc (fresh ?st1) := accepting),
                     fresh := Suc (Suc (fresh ?st1)),
                     currentTransitionMap := map_option Obj \<circ> map_of tm\<rparr>"
    have 1: "refine t [Obj ?n, Accepting] None ?st1 =
             refine t (map Obj (new_Set (map snd tm))) (Some [Obj ?n, Accepting]) ?st2"
      using refine_step [OF sameRow_None tm(1), of t] by simp
    show ?thesis
    proof (cases "Min (set ?na \<union> set accepting) \<in> set ?na")
      case True
      have ns: "new_Set (map snd tm) = [fresh ?st1, Suc (fresh ?st1)]"
        using tm(3) True by (simp only: if_True)
      have s: "stable2 ?st2 (map Obj (new_Set (map snd tm))) ?na accepting"
        unfolding stable2_def ns
        by (rule conjI [OF _ ball], rule exI [of _ "fresh ?st1"], rule exI [of _ "Suc (fresh ?st1)"])
           (auto simp: tm(2) fun_eq_iff)
      have mo: "minimized_of t = closed2 t ?na accepting"
        using False True by (auto simp: minimized_of_def Let_def)
      from refine_stable2 [OF s False dac(2) dna dac(1) dj True tna tac, of "Some [Obj ?n, Accepting]"]
      show ?thesis unfolding m cur 1 mo by blast
    next
      case F: False
      have mn: "Min (set accepting \<union> set ?na) \<in> set accepting"
      proof -
        have "Min (set ?na \<union> set accepting) \<in> set ?na \<union> set accepting"
          by (rule Min_in) (simp_all add: dac(2))
        then show ?thesis using F by (auto simp: Un_commute)
      qed
      have dj': "set accepting \<inter> set ?na = {}" by auto
      have ns: "new_Set (map snd tm) = [Suc (fresh ?st1), fresh ?st1]"
        using tm(3) F by (simp only: if_False)
      have s: "stable2 ?st2 (map Obj (new_Set (map snd tm))) accepting ?na"
        unfolding stable2_def ns
        by (rule conjI [OF _ ball'], rule exI [of _ "Suc (fresh ?st1)"], rule exI [of _ "fresh ?st1"])
           (auto simp: tm(2) fun_eq_iff)
      have mo: "minimized_of t = closed2 t accepting ?na"
        using False F by (auto simp: minimized_of_def Let_def)
      from refine_stable2 [OF s dac(2) False dac(1) dna dj' mn tac tna, of "Some [Obj ?n, Accepting]"]
      show ?thesis unfolding m cur 1 mo by blast
    qed
  qed
qed

text \<open>
  C5 (amended). The map \<open>currentTransitionMap\<close> is a variable of the module, kept from one call
  to the next, so calls are not independent in general. For every table whose ids are array
  indices (below \<open>2^32 - 1\<close>) and that has a row for each of the accepting ids 2 and 3,
  however, \<open>minimize\<close> returns a table, and the same table, from every module state, that
  is whatever calls ran before.
\<close>

theorem minimize_result_independent_of_state:
  assumes "set accepting \<subseteq> fst ` set t" "\<forall>k\<in>fst ` set t. k < 4294967295"
  shows "\<exists>r. map_option fst (minimize t st) = Some (Inr r) \<and>
             map_option fst (minimize t init_pstate) = Some (Inr r)"
proof -
  have a: "2 \<in> fst ` set t" "3 \<in> fst ` set t"
    using assms(1) by (simp_all add: accepting_def)
  from minimize_closed [OF a(1) _ assms(2), of st] a(2)
  have 1: "map_option fst (minimize t st) = Some (Inr (minimized_of t))" by auto
  from minimize_closed [OF a(1) _ assms(2), of init_pstate] a(2)
  have 2: "map_option fst (minimize t init_pstate) = Some (Inr (minimized_of t))" by auto
  show ?thesis unfolding 1 2 by blast
qed

theorem minimize_result_independent_of_state_witness:
  "set accepting \<subseteq> fst ` set table0 \<and> Max (fst ` set table0) < 4294967295 \<and>
   (\<exists>r. map_option fst (minimize table0 (init_pstate\<lparr>currentTransitionMap := [7 \<mapsto> Accepting]\<rparr>)) =
          Some (Inr r) \<and>
        map_option fst (minimize table0 init_pstate) = Some (Inr r))"
  using minimize_result_independent_of_state
    [of table0 "init_pstate\<lparr>currentTransitionMap := [7 \<mapsto> Accepting]\<rparr>"]
  by (simp add: accepting_def table0_def)

text \<open>
  C5 as stated fails. The table \<open>{1:{}, 2:{}}\<close> has no row for the accepting id 3. From the
  initial value \<open>{}\<close> of the module map \<open>minimize\<close> throws a TypeError on it (id 3 has no
  entry in the module map, is split from id 2, and step 2 reads \<open>table[3][symbol]\<close>). After
  a call on \<open>{1:{}, 2:{}, 3:{}}\<close> the entry of id 3 left by that call keeps 2 and 3
  together, and the same call returns \<open>{1:{}, 2:{}}\<close>.
\<close>

theorem minimize_depends_on_earlier_calls:
  "map_option fst (minimize [(1, []), (2, [])] init_pstate) = Some (Inl TypeError) \<and>
   minimize_then [(1, []), (2, []), (3, [])] [(1, []), (2, [])] init_pstate =
     Some (Inr [(1, []), (2, [])])"
  by code_simp

text \<open>
  C8 (the code departs from the claim). The ids of a minimized table are class numbers, while
  the accepting ids stay the module constant \<open>{2,3}\<close>, so \<open>minimize\<close> cannot be applied to
  its own result. On \<open>{2:{}, 3:{}}\<close> it returns the one-state table \<open>{1:{}}\<close>; applied to that
  table next, it throws a TypeError (the accepting class has first member 2, and step 2 reads
  \<open>table[2][symbol]\<close>), whether the first call started from the initial module state or from
  the state the module's own call on its table leaves. On the minimized module table
  \<open>{1:{a:2,b:2}, 2:{}}\<close> it throws from the initial module state, and returns two states
  after the call that produced it only because that call left an entry for id 3 in the
  module map.
\<close>

theorem minimize_of_minimized_throws:
  "map_option fst (minimize [(2, []), (3, [])] init_pstate) = Some (Inr [(1, [])]) \<and>
   minimize_then [(2, []), (3, [])] [(1, [])] init_pstate = Some (Inl TypeError) \<and>
   map_option fst (minimize [(2, []), (3, [])] state_after_load) = Some (Inr [(1, [])]) \<and>
   minimize_then [(2, []), (3, [])] [(1, [])] state_after_load = Some (Inl TypeError) \<and>
   map_option fst (minimize table0 init_pstate) =
     Some (Inr [(1, [(js ''a'', Some 2), (js ''b'', Some 2)]), (2, [])]) \<and>
   map_option fst (minimize [(1, [(js ''a'', Some 2), (js ''b'', Some 2)]), (2, [])] init_pstate) =
     Some (Inl TypeError) \<and>
   minimize_then table0 [(1, [(js ''a'', Some 2), (js ''b'', Some 2)]), (2, [])] init_pstate =
     Some (Inr [(1, [(js ''a'', Some 2), (js ''b'', Some 2)]), (2, [])])"
  by code_simp

section \<open>Results on NFA-DFA-RegExp.js\<close>

lemma map_of_map_set_same: "map_of (map_set kvs k v) k = Some v"
  by (induction kvs) auto

text \<open>
  C1 (the code departs from the claim). For the fragment \<open>e()\<close> and the empty input the
  graph walk accepts and the DFA built from the same fragment rejects: the start label
  \<open>1,2\<close> is never tested for acceptance.
\<close>

theorem nfa_dfa_disagree_on_epsilon:
  "nfa_result 3 E [] = Some True \<and> dfa_result 3 E [] = Some (Inr False)"
  by code_simp

text \<open>
  C2 (the code departs from the claim). For \<open>e()\<close> the start label is \<open>1,2\<close>, the NFA
  accepting numbers are \<open>{2}\<close>, so the start label's ids meet them; but the DFA accepting
  set is empty, and \<open>DFA.matches('')\<close> is false. Labels are tested for acceptance only
  when they are the target of a transition.
\<close>

theorem start_label_not_tested_for_acceptance:
  "(case dfa_built 3 E of
      Some (Inr d) \<Rightarrow>
        startingStateNumber_memo d = Some (join_ids [1, 2]) \<and>
        dfa_transitionTable_memo d = Some [(join_ids [1, 2], [])] \<and>
        acceptingStateNumbers_memo (nfa_of d) = Some [2] \<and>
        2 \<in> set [1, 2 :: nat] \<and>
        dfa_acceptingStateNumbers_memo d = Some []
    | _ \<Rightarrow> False) \<and>
   dfa_result 3 E [] = Some (Inr False)"
  by code_simp

text \<open>
  C7 (the code departs from the claim). In \<open>rep(alt(e(), e()))\<close> the states 0, 1, 2, 3, 5 lie
  on one epsilon cycle \<open>0 \<rightarrow> 1 \<rightarrow> 2 \<rightarrow> 3 \<rightarrow> 5 \<rightarrow> 0\<close> (5 is the fragment's \<open>out\<close>, 4 its \<open>in\<close>).
  The call on \<open>in\<close> returns all six states, but during it the closure of \<open>out\<close> was
  memoized from the unfinished closure of state 0, so the call on \<open>out\<close> returns three
  states and misses 2 and 3, which \<open>out\<close> reaches by epsilon transitions.
\<close>

theorem epsilon_closure_memoizes_partial_set:
  "map transitions (snd (build (Rep (Alt E [E])) [])) =
     [[(EPSILON, [1])], [(EPSILON, [2])], [(EPSILON, [3])], [(EPSILON, [5])],
      [(EPSILON, [0, 5])], [(EPSILON, [0])]] \<and>
   in_state (fst (build (Rep (Alt E [E])) [])) = 4 \<and>
   out_state (fst (build (Rep (Alt E [E])) [])) = 5 \<and>
   closures_in_out 7 (Rep (Alt E [E])) = Some ([4, 0, 1, 2, 3, 5], [5, 0, 1])"
  by code_simp

text \<open>
  C10. \<open>getTransitionsOnSymbol\<close> on a symbol without an entry returns an empty Set and
  leaves it stored under the symbol. So for \<open>char('a')\<close> and the input \<open>b\<close>: after
  \<open>matches('b')\<close> the first \<open>getTransitionTable()\<close> has the column \<open>b\<close> with no targets in
  row 1 and \<open>getAlphabet()\<close> is \<open>{a, b}\<close>; with \<open>getTransitionTable()\<close> called first, the
  memoized table has no such column and the alphabet stays \<open>{a}\<close>.
\<close>

theorem getTransitionsOnSymbol_not_read_only:
  "(\<forall>h q symbol. q < length h \<longrightarrow> map_of (transitions (h ! q)) symbol = None \<longrightarrow>
       fst (getTransitionsOnSymbol h q symbol) = [] \<and>
       map_of (transitions (snd (getTransitionsOnSymbol h q symbol) ! q)) symbol = Some []) \<and>
   matches_then_alphabet 3 (Char (js ''a'')) (js ''b'') =
     Some (Inr ([js ''a'', js ''b''],
                Some [(1, [(js ''a'', [2]), (js ''b'', []), (EPSILON_CLOSURE, [1])]),
                      (2, [(EPSILON_CLOSURE, [2])])])) \<and>
   table_then_matches_then_alphabet 3 (Char (js ''a'')) (js ''b'') =
     Some (Inr ([js ''a''],
                Some [(1, [(js ''a'', [2]), (EPSILON_CLOSURE, [1])]),
                      (2, [(EPSILON_CLOSURE, [2])])]))"
proof (intro conjI allI impI)
  fix h :: heap and q symbol
  assume "q < length h" and "map_of (transitions (h ! q)) symbol = None"
  then show "fst (getTransitionsOnSymbol h q symbol) = []"
    and "map_of (transitions (snd (getTransitionsOnSymbol h q symbol) ! q)) symbol = Some []"
    by (simp_all add: getTransitionsOnSymbol_def map_of_map_set_same)
next
  show "matches_then_alphabet 3 (Char (js ''a'')) (js ''b'') =
     Some (Inr ([js ''a'', js ''b''],
                Some [(1, [(js ''a'', [2]), (js ''b'', []), (EPSILON_CLOSURE, [1])]),
                      (2, [(EPSILON_CLOSURE, [2])])]))"
    by code_simp
next
  show "table_then_matches_then_alphabet 3 (Char (js ''a'')) (js ''b'') =
     Some (Inr ([js ''a''],
                Some [(1, [(js ''a'', [2]), (EPSILON_CLOSURE, [1])]),
                      (2, [(EPSILON_CLOSURE, [2])])]))"
    by code_simp
qed

theorem getTransitionsOnSymbol_not_read_only_witness:
  "0 < length (snd (build (Char (js ''a'')) [])) \<and>
   map_of (transitions (snd (build (Char (js ''a'')) []) ! 0)) (js ''b'') = None \<and>
   map_of (transitions (snd (getTransitionsOnSymbol (snd (build (Char (js ''a'')) [])) 0 (js ''b'')) ! 0))
     (js ''b'') = Some []"
proof -
  have h1: "0 < length (snd (build (Char (js ''a'')) []))" by code_simp
  have h2: "map_of (transitions (snd (build (Char (js ''a'')) []) ! 0)) (js ''b'') = None" by code_simp
  from getTransitionsOnSymbol_not_read_only h1 h2 show ?thesis by blast
qed

subsection \<open>The graph walk and the accepting paths\<close>

lemma map_of_map_set: "map_of (map_set kvs k v) = (map_of kvs)(k \<mapsto> v)"
  by (induction kvs) (auto simp: fun_eq_iff)

lemma same_graph_refl: "same_graph h h"
  by (simp add: same_graph_def)

lemma wf_heap_edges:
  assumes "wf_heap h" "q < length h" "p \<in> set (edges h q symbol)"
  shows "p < length h"
proof (cases "map_of (transitions (h ! q)) symbol")
  case None
  then show ?thesis using assms(3) by (simp add: edges_def)
next
  case (Some ts)
  then have "(symbol, ts) \<in> set (transitions (h ! q))" by (rule map_of_SomeD)
  moreover have "h ! q \<in> set h" using assms(2) by simp
  ultimately have "list_all (\<lambda>p. p < length h) ts"
    using assms(1) unfolding wf_heap_def list_all_iff by fastforce
  then show ?thesis using assms(3) Some by (simp add: edges_def list_all_iff)
qed

lemma getTransitionsOnSymbol_graph:
  assumes "same_graph h0 h"
  shows "fst (getTransitionsOnSymbol h q symbol) = edges h0 q symbol \<and>
         same_graph h0 (snd (getTransitionsOnSymbol h q symbol))"
proof (cases "map_of (transitions (h ! q)) symbol")
  case (Some ts)
  have "edges h q symbol = ts" using Some by (simp add: edges_def)
  moreover have "edges h0 = edges h" using assms by (simp add: same_graph_def)
  ultimately show ?thesis using assms Some
    by (simp add: getTransitionsOnSymbol_def)
next
  case None
  let ?h1 = "h[q := (h ! q)\<lparr>transitions := map_set (transitions (h ! q)) symbol []\<rparr>]"
  have e: "edges ?h1 = edges h"
  proof (intro ext)
    fix q' s
    show "edges ?h1 q' s = edges h q' s"
    proof (cases "q' = q \<and> q < length h")
      case True
      then show ?thesis using None by (simp add: edges_def map_of_map_set)
    next
      case False
      then have "?h1 ! q' = h ! q'" by (cases "q < length h") (auto simp: list_update_beyond)
      then show ?thesis by (simp add: edges_def)
    qed
  qed
  have a: "is_accepting (?h1 ! q') = is_accepting (h ! q')" for q'
    by (cases "q < length h") (auto simp: nth_list_update list_update_beyond)
  have "same_graph h0 ?h1" using assms e a by (simp add: same_graph_def)
  moreover have "edges h0 q symbol = []"
  proof -
    have "edges h q symbol = []" using None by (simp add: edges_def)
    moreover have "edges h0 = edges h" using assms by (simp add: same_graph_def)
    ultimately show ?thesis by simp
  qed
  ultimately show ?thesis using None by (simp add: getTransitionsOnSymbol_def)
qed

lemma closed_no_accept:
  assumes "walks h q w" "q \<in> S" "\<forall>p\<in>S. set (edges h p EPSILON) \<subseteq> S"
  shows "\<exists>p\<in>S. is_goal h p w"
  using assms
proof (induction rule: walks.induct)
  case (walks_end q)
  then show ?case by (auto simp: is_goal_def)
next
  case (walks_symbol p q c w)
  then show ?case by (auto simp: is_goal_def)
next
  case (walks_epsilon p q w)
  then have "p \<in> S" by blast
  then show ?case using walks_epsilon by blast
qed

lemma post_top:
  assumes "matches_post h0 q w [] r"
  shows "fst r \<longleftrightarrow> walks h0 q w"
proof (cases "fst r")
  case True
  then show ?thesis using assms by (simp add: matches_post_def)
next
  case False
  let ?S = "set (fst (snd r))"
  have q: "q \<in> ?S" and c: "\<forall>p\<in>?S. \<not> is_goal h0 p w \<and> set (edges h0 p EPSILON) \<subseteq> ?S"
    using assms False by (simp_all add: matches_post_def)
  have "\<not> walks h0 q w"
  proof
    assume "walks h0 q w"
    from closed_no_accept [OF this q] c show False by blast
  qed
  then show ?thesis using False by simp
qed

lemma matches_eps_Cons:
  "matches_eps call h (p # ps) w V =
     (case call h p w V of None \<Rightarrow> None
      | Some r \<Rightarrow> if fst r then Some r else matches_eps call (snd (snd r)) ps w (fst (snd r)))"
  by (auto split: option.splits bool.splits)

lemma matches_sym_Cons:
  "matches_sym call h (p # ps) rest =
     (case call h p rest [] of None \<Rightarrow> None
      | Some r \<Rightarrow> if fst r then Some (True, snd (snd r)) else matches_sym call (snd (snd r)) ps rest)"
  by (auto split: option.splits bool.splits)

lemma eps_loop:
  assumes "call_ok h0 call w k"
  shows "same_graph h0 h \<Longrightarrow> set ps \<subseteq> {..<length h0} \<Longrightarrow> set V \<subseteq> {..<length h0} \<Longrightarrow>
         k \<le> card (set V) \<Longrightarrow>
         \<exists>b V' h'. matches_eps call h ps w V = Some (b, V', h') \<and> same_graph h0 h' \<and>
           set V \<subseteq> set V' \<and> set V' \<subseteq> {..<length h0} \<and>
           (b \<longrightarrow> (\<exists>p\<in>set ps. walks h0 p w)) \<and>
           (\<not> b \<longrightarrow> set ps \<subseteq> set V' \<and>
              (\<forall>p\<in>set V' - set V. \<not> is_goal h0 p w \<and> set (edges h0 p EPSILON) \<subseteq> set V'))"
proof (induction ps arbitrary: h V)
  case Nil
  then show ?case by (intro exI [of _ False] exI [of _ V] exI [of _ h]) simp
next
  case (Cons p ps)
  have p: "p < length h0" using Cons.prems(2) by simp
  from assms Cons.prems(1,3,4) p
  obtain r where r: "call h p w V = Some r" "matches_post h0 p w V r"
    unfolding call_ok_def by blast
  obtain b1 V1 h1 where r3: "r = (b1, V1, h1)" by (cases r) auto
  have post: "same_graph h0 h1" "set V \<subseteq> set V1" "set V1 \<subseteq> {..<length h0}"
    "b1 \<longrightarrow> walks h0 p w"
    "\<not> b1 \<longrightarrow> p \<in> set V1 \<and> (\<forall>x\<in>set V1 - set V. \<not> is_goal h0 x w \<and> set (edges h0 x EPSILON) \<subseteq> set V1)"
    using r(2) unfolding matches_post_def r3 by simp_all
  show ?case
  proof (cases b1)
    case True
    have "matches_eps call h (p # ps) w V = Some (True, V1, h1)"
      unfolding matches_eps_Cons by (simp add: r(1) r3 True)
    then show ?thesis using post True by auto
  next
    case False
    have k: "k \<le> card (set V1)"
      using Cons.prems(4) card_mono [OF _ post(2)] by simp
    have ps: "set ps \<subseteq> {..<length h0}" using Cons.prems(2) by simp
    from Cons.IH [OF post(1) ps post(3) k]
    obtain b V' h' where l: "matches_eps call h1 ps w V1 = Some (b, V', h')" "same_graph h0 h'"
      "set V1 \<subseteq> set V'" "set V' \<subseteq> {..<length h0}"
      "b \<longrightarrow> (\<exists>p\<in>set ps. walks h0 p w)"
      "\<not> b \<longrightarrow> set ps \<subseteq> set V' \<and>
         (\<forall>p\<in>set V' - set V1. \<not> is_goal h0 p w \<and> set (edges h0 p EPSILON) \<subseteq> set V')"
      by blast
    have e: "matches_eps call h (p # ps) w V = Some (b, V', h')"
      unfolding matches_eps_Cons by (simp add: r(1) r3 False l(1))
    have c: "\<not> b \<longrightarrow> (\<forall>x\<in>set V' - set V. \<not> is_goal h0 x w \<and> set (edges h0 x EPSILON) \<subseteq> set V')"
    proof (intro impI ballI)
      fix x assume nb: "\<not> b" and x: "x \<in> set V' - set V"
      show "\<not> is_goal h0 x w \<and> set (edges h0 x EPSILON) \<subseteq> set V'"
      proof (cases "x \<in> set V1")
        case True
        then have "\<not> is_goal h0 x w \<and> set (edges h0 x EPSILON) \<subseteq> set V1"
          using post(5) False x by blast
        then show ?thesis using l(3) by blast
      next
        case F: False
        then show ?thesis using l(6) nb x by blast
      qed
    qed
    have d: "\<not> b \<longrightarrow> set (p # ps) \<subseteq> set V'"
      using post(5) False l(3) l(6) by auto
    have a: "b \<longrightarrow> (\<exists>x\<in>set (p # ps). walks h0 x w)" using l(5) by auto
    have s: "set V \<subseteq> set V'" using post(2) l(3) by blast
    show ?thesis using e l(2) s l(4) a c d by blast
  qed
qed

lemma sym_loop:
  assumes "call_ok h0 call rest 0"
  shows "same_graph h0 h \<Longrightarrow> set ps \<subseteq> {..<length h0} \<Longrightarrow>
         \<exists>b h'. matches_sym call h ps rest = Some (b, h') \<and> same_graph h0 h' \<and>
           (b \<longleftrightarrow> (\<exists>p\<in>set ps. walks h0 p rest))"
proof (induction ps arbitrary: h)
  case Nil
  then show ?case by (intro exI [of _ False] exI [of _ h]) simp
next
  case (Cons p ps)
  have p: "p < length h0" using Cons.prems(2) by simp
  have "\<exists>r. call h p rest [] = Some r \<and> matches_post h0 p rest [] r"
    using assms Cons.prems(1) p unfolding call_ok_def by simp
  then obtain r where r: "call h p rest [] = Some r" "matches_post h0 p rest [] r"
    by blast
  have t: "fst r \<longleftrightarrow> walks h0 p rest" by (rule post_top [OF r(2)])
  have g: "same_graph h0 (snd (snd r))" using r(2) by (simp add: matches_post_def)
  show ?case
  proof (cases "fst r")
    case True
    have "matches_sym call h (p # ps) rest = Some (True, snd (snd r))"
      unfolding matches_sym_Cons by (simp add: r(1) True)
    then show ?thesis using g t True by auto
  next
    case False
    have ps: "set ps \<subseteq> {..<length h0}" using Cons.prems(2) by simp
    from Cons.IH [OF g ps]
    obtain b h' where l: "matches_sym call (snd (snd r)) ps rest = Some (b, h')" "same_graph h0 h'"
      "b \<longleftrightarrow> (\<exists>p\<in>set ps. walks h0 p rest)" by blast
    have "matches_sym call h (p # ps) rest = Some (b, h')"
      unfolding matches_sym_Cons by (simp add: r(1) False l(1))
    then show ?thesis using l(2,3) t False by auto
  qed
qed

lemma card_visited:
  assumes "set V \<subseteq> {..<N}" "q < N" "q \<notin> set V"
  shows "card (set V) < N" "card (set (V @ [q])) = Suc (card (set V))"
proof -
  have "set V \<subseteq> {..<N} - {q}" using assms by blast
  then have "card (set V) \<le> card ({..<N} - {q})" by (intro card_mono) simp_all
  then show "card (set V) < N" using assms(2) by simp
  show "card (set (V @ [q])) = Suc (card (set V))" using assms(3) by simp
qed

lemma matches_Suc_visited:
  "q \<in> set V \<Longrightarrow> matches (Suc n) h q w V = Some (False, V, h)"
  by simp

lemma matches_Suc_end:
  "q \<notin> set V \<Longrightarrow>
   matches (Suc n) h q [] V =
     (if is_accepting (h ! q) then Some (True, V @ [q], h)
      else matches_eps (matches n) (snd (getTransitionsOnSymbol h q EPSILON))
             (fst (getTransitionsOnSymbol h q EPSILON)) [] (V @ [q]))"
  by (simp add: set_add_def Let_def split: prod.splits)

lemma matches_Suc_symbol:
  "q \<notin> set V \<Longrightarrow>
   matches (Suc n) h q (c # rest) V =
     (case matches_sym (matches n) (snd (getTransitionsOnSymbol h q [c]))
             (fst (getTransitionsOnSymbol h q [c])) rest of
        None \<Rightarrow> None
      | Some r \<Rightarrow>
          if fst r then Some (True, V @ [q], snd r)
          else matches_eps (matches n) (snd (getTransitionsOnSymbol (snd r) q EPSILON))
                 (fst (getTransitionsOnSymbol (snd r) q EPSILON)) (c # rest) (V @ [q]))"
  by (simp add: set_add_def Let_def split: prod.splits option.splits bool.splits)

lemma matches_total_correct:
  assumes wf: "wf_heap h0"
  shows "same_graph h0 h \<Longrightarrow> q < length h0 \<Longrightarrow> set V \<subseteq> {..<length h0} \<Longrightarrow>
         fuel_needed w V (length h0) \<le> n \<Longrightarrow>
         \<exists>r. matches n h q w V = Some r \<and> matches_post h0 q w V r"
proof (induction n arbitrary: h q w V)
  case 0
  then show ?case by (simp add: fuel_needed_def)
next
  case (Suc n)
  let ?N = "length h0"
  have call: "call_ok h0 (matches n) w' k" if "length w' * Suc ?N + (?N - k) + 1 \<le> n" for w' k
    unfolding call_ok_def
  proof (intro allI impI)
    fix h q V
    assume a: "same_graph h0 h" "q < ?N" "set V \<subseteq> {..<?N}" "k \<le> card (set V)"
    have "fuel_needed w' V ?N \<le> n"
      using that a(4) by (simp add: fuel_needed_def)
    from Suc.IH [OF a(1) a(2) a(3) this]
    show "\<exists>r. matches n h q w' V = Some r \<and> matches_post h0 q w' V r" .
  qed
  have edges_lt: "set (edges h0 q s) \<subseteq> {..<?N}" for s
    using wf_heap_edges [OF wf Suc.prems(2)] by auto
  show ?case
  proof (cases "q \<in> set V")
    case True
    have "matches_post h0 q w V (False, V, h)"
      using Suc.prems(1,3) True by (simp add: matches_post_def)
    then show ?thesis using matches_Suc_visited [OF True] by simp
  next
    case False
    let ?V1 = "V @ [q]"
    note cv = card_visited [OF Suc.prems(3) Suc.prems(2) False]
    have V1: "set ?V1 \<subseteq> {..<?N}" using Suc.prems(2,3) by simp
    have acc: "is_accepting (h ! q) = is_accepting (h0 ! q)"
      using Suc.prems(1) by (simp add: same_graph_def)
    have eps_case:
      "\<exists>r. matches_eps (matches n) (snd (getTransitionsOnSymbol h2 q EPSILON))
                (fst (getTransitionsOnSymbol h2 q EPSILON)) w ?V1 = Some r \<and>
            matches_post h0 q w V r"
      if g2: "same_graph h0 h2" and ng: "\<not> is_goal h0 q w" for h2
    proof -
      have f: "length w * Suc ?N + (?N - card (set ?V1)) + 1 \<le> n"
        using Suc.prems(4) cv by (simp add: fuel_needed_def)
      note gt = getTransitionsOnSymbol_graph [OF g2, of q EPSILON]
      have es: "set (fst (getTransitionsOnSymbol h2 q EPSILON)) \<subseteq> {..<?N}"
        using gt edges_lt by simp
      from eps_loop [OF call [OF f] conjunct2 [OF gt] es V1 order_refl]
      obtain b V' h' where l:
        "matches_eps (matches n) (snd (getTransitionsOnSymbol h2 q EPSILON))
            (fst (getTransitionsOnSymbol h2 q EPSILON)) w ?V1 = Some (b, V', h')"
        "same_graph h0 h'" "set ?V1 \<subseteq> set V'" "set V' \<subseteq> {..<?N}"
        "b \<longrightarrow> (\<exists>p\<in>set (fst (getTransitionsOnSymbol h2 q EPSILON)). walks h0 p w)"
        "\<not> b \<longrightarrow> set (fst (getTransitionsOnSymbol h2 q EPSILON)) \<subseteq> set V' \<and>
           (\<forall>p\<in>set V' - set ?V1. \<not> is_goal h0 p w \<and> set (edges h0 p EPSILON) \<subseteq> set V')"
        by blast
      have e: "fst (getTransitionsOnSymbol h2 q EPSILON) = edges h0 q EPSILON" using gt by simp
      have a: "b \<longrightarrow> walks h0 q w"
        using l(5) unfolding e by (auto intro: walks_epsilon)
      have c: "\<not> b \<longrightarrow> (\<forall>p\<in>set V' - set V. \<not> is_goal h0 p w \<and> set (edges h0 p EPSILON) \<subseteq> set V')"
      proof (intro impI ballI)
        fix p assume nb: "\<not> b" and p: "p \<in> set V' - set V"
        show "\<not> is_goal h0 p w \<and> set (edges h0 p EPSILON) \<subseteq> set V'"
        proof (cases "p = q")
          case True
          then show ?thesis using ng l(6) nb unfolding e by simp
        next
          case F: False
          then have "p \<in> set V' - set ?V1" using p by simp
          then show ?thesis using l(6) nb by blast
        qed
      qed
      have "matches_post h0 q w V (b, V', h')"
        unfolding matches_post_def using l(2,3,4) a c by auto
      then show ?thesis using l(1) by simp
    qed
    show ?thesis
    proof (cases w)
      case Nil
      show ?thesis
      proof (cases "is_accepting (h0 ! q)")
        case True
        have "walks h0 q []" using True by (rule walks_end)
        then have "matches_post h0 q w V (True, ?V1, h)"
          using Suc.prems(1) V1 Nil by (auto simp: matches_post_def)
        moreover have "matches (Suc n) h q w V = Some (True, ?V1, h)"
          unfolding Nil matches_Suc_end [OF False] using True acc by simp
        ultimately show ?thesis by simp
      next
        case F: False
        have ng: "\<not> is_goal h0 q w" using F Nil by (simp add: is_goal_def)
        have "matches (Suc n) h q w V =
              matches_eps (matches n) (snd (getTransitionsOnSymbol h q EPSILON))
                (fst (getTransitionsOnSymbol h q EPSILON)) w ?V1"
          unfolding Nil matches_Suc_end [OF False] using F acc by simp
        then show ?thesis using eps_case [OF Suc.prems(1) ng] by simp
      qed
    next
      case (Cons c rest)
      have f: "length rest * Suc ?N + (?N - 0) + 1 \<le> n"
        using Suc.prems(4) by (simp add: fuel_needed_def Cons)
      note gt = getTransitionsOnSymbol_graph [OF Suc.prems(1), of q "[c]"]
      have ps: "set (fst (getTransitionsOnSymbol h q [c])) \<subseteq> {..<?N}"
        using gt edges_lt by simp
      from sym_loop [OF call [OF f] conjunct2 [OF gt] ps]
      obtain b h2 where l:
        "matches_sym (matches n) (snd (getTransitionsOnSymbol h q [c]))
           (fst (getTransitionsOnSymbol h q [c])) rest = Some (b, h2)"
        "same_graph h0 h2"
        "b \<longleftrightarrow> (\<exists>p\<in>set (fst (getTransitionsOnSymbol h q [c])). walks h0 p rest)"
        by blast
      have e: "fst (getTransitionsOnSymbol h q [c]) = edges h0 q [c]" using gt by simp
      have g: "b \<longleftrightarrow> is_goal h0 q w" using l(3) unfolding e by (simp add: is_goal_def Cons)
      show ?thesis
      proof (cases b)
        case True
        have "walks h0 q (c # rest)"
          using l(3) True unfolding e by (auto intro: walks_symbol)
        then have "matches_post h0 q w V (True, ?V1, h2)"
          using l(2) V1 Cons by (auto simp: matches_post_def)
        moreover have "matches (Suc n) h q w V = Some (True, ?V1, h2)"
          unfolding Cons matches_Suc_symbol [OF False] by (simp add: l(1) True)
        ultimately show ?thesis by simp
      next
        case F: False
        have ng: "\<not> is_goal h0 q w" using g F by simp
        have "matches (Suc n) h q w V =
              matches_eps (matches n) (snd (getTransitionsOnSymbol h2 q EPSILON))
                (fst (getTransitionsOnSymbol h2 q EPSILON)) w ?V1"
          unfolding Cons matches_Suc_symbol [OF False] by (simp add: l(1) F)
        then show ?thesis using eps_case [OF l(2) ng] by simp
      qed
    qed
  qed
qed

lemma matches_decides_walks:
  assumes "wf_heap h" "q < length h" "Suc (length w) * Suc (length h) \<le> n"
  shows "\<exists>b visited h'. matches n h q w [] = Some (b, visited, h') \<and> (b \<longleftrightarrow> walks h q w)"
proof -
  have f: "fuel_needed w [] (length h) \<le> n"
    using assms(3) by (simp add: fuel_needed_def)
  have v: "set ([] :: addr list) \<subseteq> {..<length h}" by simp
  from matches_total_correct [OF assms(1) same_graph_refl assms(2) v f]
  obtain r where r: "matches n h q w [] = Some r" "matches_post h q w [] r" by blast
  from post_top [OF r(2)] r(1) show ?thesis by (cases r) auto
qed

lemma unit_symbols_edges:
  assumes "unit_symbols h" "q < length h" "p \<in> set (edges h q symbol)"
  shows "length symbol = 1"
proof (cases "map_of (transitions (h ! q)) symbol")
  case None
  then show ?thesis using assms(3) by (simp add: edges_def)
next
  case (Some ts)
  then have "(symbol, ts) \<in> set (transitions (h ! q))" by (rule map_of_SomeD)
  moreover have "h ! q \<in> set h" using assms(2) by simp
  ultimately show ?thesis
    using assms(1) unfolding unit_symbols_def list_all_iff by fastforce
qed

lemma accepts_imp_walks:
  assumes "wf_heap h" "unit_symbols h"
  shows "accepts h q w \<Longrightarrow> q < length h \<Longrightarrow> walks h q w"
proof (induction rule: accepts.induct)
  case (accepts_end q)
  then show ?case by (auto intro: walks_end)
next
  case (accepts_symbol symbol p q w)
  have "length symbol = 1"
    using unit_symbols_edges [OF assms(2) accepts_symbol.prems accepts_symbol.hyps(3)] .
  then obtain c where c: "symbol = [c]" by (cases symbol) auto
  have "p < length h"
    using wf_heap_edges [OF assms(1) accepts_symbol.prems accepts_symbol.hyps(3)] .
  then have "walks h p w" by (rule accepts_symbol.IH)
  then show ?case using accepts_symbol.hyps(3) unfolding c by (auto intro: walks_symbol)
next
  case (accepts_epsilon p q w)
  have "p < length h"
    using wf_heap_edges [OF assms(1) accepts_epsilon.prems accepts_epsilon.hyps(1)] .
  then have "walks h p w" by (rule accepts_epsilon.IH)
  then show ?case using accepts_epsilon.hyps(1) by (auto intro: walks_epsilon)
qed

lemma walks_imp_accepts:
  "walks h q w \<Longrightarrow> 949 \<notin> set w \<Longrightarrow> accepts h q w"
proof (induction rule: walks.induct)
  case (walks_end q)
  then show ?case by (auto intro: accepts_end)
next
  case (walks_symbol p q c w)
  have a: "accepts h p w" using walks_symbol by simp
  have "[c] \<noteq> EPSILON" using walks_symbol.prems by (simp add: EPSILON_def)
  then have "accepts h q ([c] @ w)"
    using walks_symbol.hyps(1) a by (intro accepts_symbol) simp_all
  then show ?case by simp
next
  case (walks_epsilon p q w)
  then show ?case by (auto intro: accepts_epsilon)
qed

text \<open>
  Apart from the input unit U+03B5 the walk decides the accepting paths. For every heap
  without dangling references whose symbols are one unit long, every state \<open>q\<close> of it and
  every input \<open>w\<close>, \<open>matches\<close> started with a new \<open>visited\<close> Set returns (every depth bound
  of at least \<open>(|w| + 1) * (number of states + 1)\<close> is enough); it returns \<open>true\<close> whenever
  \<open>w\<close> has an accepting path from \<open>q\<close>, so the \<open>visited\<close> guard never makes it reject such an
  input; and when \<open>w\<close> holds no unit U+03B5, it returns \<open>true\<close> only if \<open>w\<close> has such a path.
\<close>

lemma matches_decides_accepts:
  assumes "wf_heap h" "unit_symbols h" "q < length h" "Suc (length w) * Suc (length h) \<le> n"
  shows "\<exists>b visited h'. matches n h q w [] = Some (b, visited, h') \<and>
           (accepts h q w \<longrightarrow> b) \<and> (949 \<notin> set w \<longrightarrow> (b \<longleftrightarrow> accepts h q w))"
proof -
  from matches_decides_walks [OF assms(1) assms(3) assms(4)]
  obtain b visited h' where m: "matches n h q w [] = Some (b, visited, h')" "b \<longleftrightarrow> walks h q w"
    by blast
  have 1: "accepts h q w \<longrightarrow> b"
    using accepts_imp_walks [OF assms(1) assms(2) _ assms(3)] m(2) by blast
  have 2: "949 \<notin> set w \<longrightarrow> (b \<longleftrightarrow> accepts h q w)"
    using walks_imp_accepts [of h q w] 1 m(2) by blast
  show ?thesis using m(1) 1 2 by blast
qed

lemma accepts_without_symbol_edges:
  assumes "wf_heap h" "\<forall>q<length h. \<forall>symbol. symbol \<noteq> EPSILON \<longrightarrow> edges h q symbol = []"
  shows "accepts h q w \<Longrightarrow> q < length h \<Longrightarrow> w = []"
proof (induction rule: accepts.induct)
  case (accepts_end q)
  show ?case by simp
next
  case (accepts_symbol symbol p q w)
  have "edges h q symbol = []" using assms(2) accepts_symbol.prems accepts_symbol.hyps(1) by blast
  then show ?case using accepts_symbol.hyps(3) by simp
next
  case (accepts_epsilon p q w)
  have "p < length h"
    using wf_heap_edges [OF assms(1) accepts_epsilon.prems accepts_epsilon.hyps(1)] .
  then show ?case by (rule accepts_epsilon.IH)
qed

lemma build_e:
  "build E [] =
     (\<lparr>in_state = 0, out_state = 1, alphabet_memo = None, acceptingStates_memo = None,
        acceptingStateNumbers_memo = None, transitionTable_memo = None\<rparr>,
      [\<lparr>transitions = [(EPSILON, [1])], is_accepting = False, epsilonClosure = None, number = None\<rparr>,
       \<lparr>transitions = [], is_accepting = True, epsilonClosure = None, number = None\<rparr>])"
  by (simp add: e_def char_def new_state_def addTransition_def getTransitionsOnSymbol_def
      NFA_def set_add_def)

text \<open>
  C6 (the code departs from the claim). \<open>EPSILON\<close> is the string of the unit U+03B5, and
  \<open>matches\<close> looks up the transitions on the next input unit in the same Map that holds the
  epsilon transitions. So an input unit U+03B5 is consumed along an epsilon edge: the fragment
  \<open>e()\<close>, "for \<epsilon> (recognizes an empty string)", has the single edge \<open>in --EPSILON--> out\<close>;
  the walk from \<open>in\<close> returns \<open>true\<close> on the empty input, which has an accepting path, and
  also on the one-unit input U+03B5, which has none: an epsilon edge consumes nothing and
  there is no other edge.
\<close>

theorem matches_consumes_input_on_epsilon_edge:
  "nfa_result 5 E [] = Some True \<and>
   accepts (snd (build E [])) (in_state (fst (build E []))) [] \<and>
   nfa_result 5 E EPSILON = Some True \<and>
   \<not> accepts (snd (build E [])) (in_state (fst (build E []))) EPSILON"
proof -
  let ?h = "[\<lparr>transitions = [(EPSILON, [1])], is_accepting = False, epsilonClosure = None, number = None\<rparr>,
             \<lparr>transitions = [], is_accepting = True, epsilonClosure = None, number = None\<rparr>]"
  have 1: "nfa_result 5 E [] = Some True" by code_simp
  have 3: "nfa_result 5 E EPSILON = Some True" by code_simp
  have "accepts ?h 1 []" by (rule accepts_end) simp
  then have 2: "accepts ?h 0 []" by (rule accepts_epsilon [rotated]) (simp add: edges_def)
  have wf: "wf_heap ?h" by (simp add: wf_heap_def)
  have ne: "\<forall>q<length ?h. \<forall>symbol. symbol \<noteq> EPSILON \<longrightarrow> edges ?h q symbol = []"
    by (auto simp: edges_def less_Suc_eq)
  have 4: "\<not> accepts ?h 0 EPSILON"
  proof
    assume "accepts ?h 0 EPSILON"
    from accepts_without_symbol_edges [OF wf ne this] show False by (simp add: EPSILON_def)
  qed
  show ?thesis unfolding build_e using 1 2 3 4 by simp
qed

subsection \<open>The labels of the DFA states\<close>


























end
